theory Spec2Isabelle
  imports Complex_Main "HOL-Library.Sublist"
begin


section \<open>JavaScript strings\<close>

text \<open>
  A JavaScript string is a sequence of UTF-16 code units. The model is \<^typ>\<open>string\<close>,
  a list of \<^typ>\<open>char\<close>, read as the code units below 256 (ASCII and Latin-1), which is
  where all the text of the program's own literals lives. \<open>length\<close> is the list's length,
  as \<open>.length\<close> counts code units.
\<close>

text \<open>
  \<open>String.prototype.toLowerCase\<close> on one code unit below 256: \<open>A\<close>..\<open>Z\<close> and the
  Latin-1 capitals \<open>0xC0\<close>..\<open>0xDE\<close> (the multiplication sign \<open>0xD7\<close> apart) move up
  by 32, every other code unit stays.
\<close>

definition toLowerCase_char :: "char \<Rightarrow> char" where
  "toLowerCase_char c =
     (let n = (of_char c :: nat)
      in if (65 \<le> n \<and> n \<le> 90) \<or> (192 \<le> n \<and> n \<le> 222 \<and> n \<noteq> 215)
         then char_of (n + 32) else c)"

definition toLowerCase :: "string \<Rightarrow> string" where
  "toLowerCase s = map toLowerCase_char s"

text \<open>
  White space as \<open>trim\<close> and the regular expression class \<open>\s\<close> read it, below 256:
  tab, line feed, vertical tab, form feed, carriage return, space and no-break space.
\<close>

definition isSpace :: "char \<Rightarrow> bool" where
  "isSpace c = ((of_char c :: nat) \<in> {9, 10, 11, 12, 13, 32, 160})"

definition trimStart :: "string \<Rightarrow> string" where
  "trimStart s = dropWhile isSpace s"

definition trimEnd :: "string \<Rightarrow> string" where
  "trimEnd s = rev (dropWhile isSpace (rev s))"

definition trim :: "string \<Rightarrow> string" where
  "trim s = trimEnd (trimStart s)"

text \<open>\<open>s.substring(0, n)\<close> for a natural number \<open>n\<close>.\<close>

definition substring0 :: "string \<Rightarrow> nat \<Rightarrow> string" where
  "substring0 s n = take n s"

text \<open>\<open>s.includes(p)\<close>: \<open>p\<close> occurs in \<open>s\<close> as a contiguous run.\<close>

fun str_includes :: "string \<Rightarrow> string \<Rightarrow> bool" where
  "str_includes [] p = (p = [])"
| "str_includes (c # cs) p = (prefix p (c # cs) \<or> str_includes cs p)"

definition endsWith :: "string \<Rightarrow> string \<Rightarrow> bool" where
  "endsWith s p = suffix p s"

text \<open>
  \<open>s.split(' ')\<close>: the pieces between single separators. The result is never empty
  (\<open>''.split(' ')\<close> is \<open>['']\<close>), and two separators in a row give an empty piece.
\<close>

fun split :: "char \<Rightarrow> string \<Rightarrow> string list" where
  "split sep [] = [[]]"
| "split sep (c # cs) =
     (if c = sep then [] # split sep cs
      else (case split sep cs of
              [] \<Rightarrow> [[c]]
            | w # ws \<Rightarrow> (c # w) # ws))"

text \<open>
  \<open>s.lastIndexOf(c)\<close> for a single character: the greatest index holding \<open>c\<close>, and
  \<open>-1\<close> when there is none.
\<close>

fun lastIndexOf_from :: "nat \<Rightarrow> char \<Rightarrow> string \<Rightarrow> int \<Rightarrow> int" where
  "lastIndexOf_from i c [] found = found"
| "lastIndexOf_from i c (x # xs) found =
     lastIndexOf_from (Suc i) c xs (if x = c then int i else found)"

definition lastIndexOf :: "string \<Rightarrow> char \<Rightarrow> int" where
  "lastIndexOf s c = lastIndexOf_from 0 c s (- 1)"

section \<open>The built-in Map\<close>

text \<open>
  A JavaScript \<open>Map\<close> keeps its entries in insertion order, one entry per key. The model
  is the list of entries in iteration order. \<open>set\<close> on a key that is present replaces the
  value where the entry stands; on a new key it appends the entry. \<open>delete\<close> removes the
  entry of the key. \<open>keys().next().value\<close> is the first key, \<open>undefined\<close> on an empty
  map.
\<close>

type_synonym ('k, 'v) jsmap = "('k \<times> 'v) list"

definition Map_has :: "('k, 'v) jsmap \<Rightarrow> 'k \<Rightarrow> bool" where
  "Map_has m k = (map_of m k \<noteq> None)"

definition Map_get :: "('k, 'v) jsmap \<Rightarrow> 'k \<Rightarrow> 'v option" where
  "Map_get m k = map_of m k"

fun Map_set :: "('k, 'v) jsmap \<Rightarrow> 'k \<Rightarrow> 'v \<Rightarrow> ('k, 'v) jsmap" where
  "Map_set [] k v = [(k, v)]"
| "Map_set ((k', v') # m) k v =
     (if k' = k then (k', v) # m else (k', v') # Map_set m k v)"

definition Map_delete :: "('k, 'v) jsmap \<Rightarrow> 'k \<Rightarrow> ('k, 'v) jsmap" where
  "Map_delete m k = filter (\<lambda>e. fst e \<noteq> k) m"

definition Map_first_key :: "('k, 'v) jsmap \<Rightarrow> 'k option" where
  "Map_first_key m = (case m of [] \<Rightarrow> None | e # _ \<Rightarrow> Some (fst e))"

text \<open>\<open>new Map(entries)\<close>: the entries are set one after the other.\<close>

definition Map_new :: "('k \<times> 'v) list \<Rightarrow> ('k, 'v) jsmap" where
  "Map_new entries = foldl (\<lambda>m e. Map_set m (fst e) (snd e)) [] entries"

section \<open>CacheManager\<close>

text \<open>
  The class of \<open>cache-manager.js\<close>: the map from hashed keys to cached values, the
  capacity given to the constructor, and the two counters. \<open>maxSize\<close> is whatever
  number the caller passed, so it is an integer here and not a natural number.
\<close>

record 'v CacheManager =
  cache :: "(string, 'v) jsmap"
  maxSize :: int
  hits :: nat
  misses :: nat

definition new_CacheManager :: "int \<Rightarrow> 'v CacheManager" where
  "new_CacheManager n = \<lparr> cache = [], maxSize = n, hits = 0, misses = 0 \<rparr>"

definition hash :: "string \<Rightarrow> string" where
  "hash text = substring0 (trim (toLowerCase text)) 100"

text \<open>\<open>get\<close> returns the value (\<open>null\<close> is \<open>None\<close>) and the cache it leaves.\<close>

definition cache_get :: "'v CacheManager \<Rightarrow> string \<Rightarrow> 'v option \<times> 'v CacheManager" where
  "cache_get c key =
     (let h = hash key
      in if Map_has (cache c) h
         then (case Map_get (cache c) h of
                 Some entry \<Rightarrow>
                   (Some entry,
                    c\<lparr> hits := hits c + 1,
                       cache := Map_set (Map_delete (cache c) h) h entry \<rparr>)
               | None \<Rightarrow> (None, c\<lparr> hits := hits c + 1 \<rparr>))
         else (None, c\<lparr> misses := misses c + 1 \<rparr>))"

definition cache_set :: "'v CacheManager \<Rightarrow> string \<Rightarrow> 'v \<Rightarrow> 'v CacheManager" where
  "cache_set c key v =
     (let h = hash key;
          m = (if int (length (cache c)) \<ge> maxSize c \<and> \<not> Map_has (cache c) h
               then (case Map_first_key (cache c) of
                       Some firstKey \<Rightarrow> Map_delete (cache c) firstKey
                     | None \<Rightarrow> cache c)
               else cache c)
      in c\<lparr> cache := Map_set m h v \<rparr>)"

definition cache_has :: "'v CacheManager \<Rightarrow> string \<Rightarrow> bool" where
  "cache_has c key = Map_has (cache c) (hash key)"

definition cache_clear :: "'v CacheManager \<Rightarrow> 'v CacheManager" where
  "cache_clear c = c\<lparr> cache := [], hits := 0, misses := 0 \<rparr>"

text \<open>The \<open>size\<close> field of \<open>getStats()\<close>.\<close>

definition cache_size :: "'v CacheManager \<Rightarrow> nat" where
  "cache_size c = length (cache c)"

text \<open>A run of \<open>set\<close> calls, in order.\<close>

definition set_all :: "'v CacheManager \<Rightarrow> (string \<times> 'v) list \<Rightarrow> 'v CacheManager" where
  "set_all c ops = foldl (\<lambda>c' kv. cache_set c' (fst kv) (snd kv)) c ops"

section \<open>Persistence of the cache\<close>

text \<open>A thrown JavaScript \<open>Error\<close>, with its message.\<close>

datatype error = Error string

text \<open>
  \<open>persist\<close> and \<open>restore\<close> talk to two things that are not code of the program:
  \<open>localStorage\<close> and \<open>JSON\<close>. They are parameters of the model. \<open>setItem\<close> and
  \<open>getItem\<close> act on a storage state and may throw (storage disabled, quota exceeded);
  \<open>getItem\<close> gives \<open>null\<close> (\<open>None\<close>) for a key that holds nothing.
  \<open>stringify\<close> is \<open>JSON.stringify\<close> on the array of entries. \<open>parse\<close> is
  \<open>JSON.parse\<close> read as the list of entries that \<open>new Map\<close> iterates over; it is an
  error when \<open>JSON.parse\<close> throws or the parsed value is nothing \<open>new Map\<close> accepts.
\<close>

record ('s, 'v) platform =
  setItem :: "'s \<Rightarrow> string \<Rightarrow> string \<Rightarrow> error + 's"
  getItem :: "'s \<Rightarrow> string \<Rightarrow> error + string option"
  stringify :: "(string \<times> 'v) list \<Rightarrow> error + string"
  parse :: "string \<Rightarrow> error + (string \<times> 'v) list"

definition storage_key :: string where
  "storage_key = ''ai_interview_cache''"

text \<open>The body of the \<open>try\<close> block of \<open>persist\<close>: the storage it leaves, or what was thrown.\<close>

definition persist_try :: "('s, 'v) platform \<Rightarrow> 'v CacheManager \<Rightarrow> 's \<Rightarrow> error + 's" where
  "persist_try P c st =
     (let data = cache c
      in case stringify P data of
           Inl e \<Rightarrow> Inl e
         | Inr blob \<Rightarrow> setItem P st storage_key blob)"

text \<open>\<open>persist\<close>: the \<open>catch\<close> only writes a warning to the console.\<close>

definition persist :: "('s, 'v) platform \<Rightarrow> 'v CacheManager \<Rightarrow> 's \<Rightarrow> 'v CacheManager \<times> 's" where
  "persist P c st =
     (case persist_try P c st of
        Inl e \<Rightarrow> (c, st)
      | Inr st' \<Rightarrow> (c, st'))"

text \<open>
  The body of the \<open>try\<close> block of \<open>restore\<close>. \<open>if (data)\<close> skips \<open>null\<close> and the
  empty string.
\<close>

definition restore_try :: "('s, 'v) platform \<Rightarrow> 'v CacheManager \<Rightarrow> 's \<Rightarrow> error + 'v CacheManager" where
  "restore_try P c st =
     (case getItem P st storage_key of
        Inl e \<Rightarrow> Inl e
      | Inr None \<Rightarrow> Inr c
      | Inr (Some data) \<Rightarrow>
          if data = [] then Inr c
          else (case parse P data of
                  Inl e \<Rightarrow> Inl e
                | Inr entries \<Rightarrow> Inr (c\<lparr> cache := Map_new entries \<rparr>)))"

definition restore :: "('s, 'v) platform \<Rightarrow> 'v CacheManager \<Rightarrow> 's \<Rightarrow> 'v CacheManager" where
  "restore P c st =
     (case restore_try P c st of
        Inl e \<Rightarrow> c
      | Inr c' \<Rightarrow> c')"

text \<open>
  What every sequence of \<open>set\<close> calls keeps: one entry per key, and a size within the
  maximum, or within 1 when the maximum is below 1.
\<close>

definition cache_inv :: "'v CacheManager \<Rightarrow> bool" where
  "cache_inv c =
     (int (length (cache c)) \<le> max 1 (maxSize c) \<and> distinct (map fst (cache c)))"



section \<open>LLMClient\<close>

datatype role = User | Assistant

record message =
  role :: role
  content :: string

subsection \<open>Doubles\<close>

text \<open>
  JavaScript numbers are IEEE doubles: 53 significant bits, every operation rounded to
  the nearest double, a tie to the neighbour with the even last bit. \<open>round_to_double\<close>
  does that rounding on a numerator: it keeps the 53 leading bits of a natural number
  (the scale of the numerator does not matter).
\<close>

fun bit_length :: "nat \<Rightarrow> nat" where
  "bit_length n = (if n = 0 then 0 else Suc (bit_length (n div 2)))"

definition round_to_double :: "nat \<Rightarrow> nat" where
  "round_to_double x =
     (let l = bit_length x
      in if l \<le> 53 then x
         else (let s = l - 53;
                   q = x div 2 ^ s;
                   r = x mod 2 ^ s;
                   half = 2 ^ (s - 1)
               in if r > half \<or> (r = half \<and> odd q) then (q + 1) * 2 ^ s else q * 2 ^ s))"

text \<open>
  The doubles that the sampling options hold are multiples of \<open>2^-55\<close>: the literals
  \<open>0.8\<close>, \<open>0.15\<close>, \<open>0.92\<close> and \<open>1.5\<close> (each the double nearest to the decimal
  numeral), and every sum of such doubles. \<open>Double m\<close> is the number \<open>m / 2^55\<close>. The
  sum of two doubles is the exact sum rounded. Adding \<open>0.15\<close> again and again never
  overflows: once the sum is so large that \<open>0.15\<close> is less than half a unit in its
  last place, the addition gives the sum back.
\<close>

datatype double = Double nat

definition double_value :: "double \<Rightarrow> real" where
  "double_value d = (case d of Double m \<Rightarrow> real m / 2 ^ 55)"

fun double_add :: "double \<Rightarrow> double \<Rightarrow> double" where
  "double_add (Double a) (Double b) = Double (round_to_double (a + b))"

definition double_0_8 :: double where
  "double_0_8 = Double 28823037615171176"

definition double_0_15 :: double where
  "double_0_15 = Double 5404319552844595"

definition double_0_92 :: double where
  "double_0_92 = Double 33146493257446852"

definition double_1_5 :: double where
  "double_1_5 = Double 54043195528445952"

subsection \<open>The client and the capability it calls\<close>

text \<open>The options object handed to the text-generation pipeline.\<close>

record gen_options =
  max_new_tokens :: nat
  temperature :: double
  top_k :: nat
  top_p :: double
  do_sample :: bool
  repetition_penalty :: double
  num_beams :: nat

text \<open>
  The pipeline is the external text-generation capability: from its own state, the
  prompt and the options it either throws or gives \<open>result[0].generated_text\<close>, and
  moves to a new state. A result without that shape makes the next statement of the
  \<open>try\<close> block throw, so it counts as a throw.
\<close>

type_synonym 'p pipeline_fn = "'p \<Rightarrow> string \<Rightarrow> gen_options \<Rightarrow> (error + string) \<times> 'p"

record 'p LLMClient =
  conversationHistory :: "message list"
  systemPrompt :: string
  pipeline :: 'p
  isModelLoaded :: bool

definition newline :: string where
  "newline = [CHR 0x0A]"

text \<open>\<open>array.slice(-4)\<close>: the last four elements, or all of them when there are fewer.\<close>

definition slice_last4 :: "'a list \<Rightarrow> 'a list" where
  "slice_last4 xs = drop (length xs - 4) xs"

definition buildContextualPrompt :: "message list \<Rightarrow> string \<Rightarrow> string" where
  \<open>buildContextualPrompt history userMessage =
     (let historyLength = length history
      in if historyLength \<le> 1
         then ''Instruction: You are a Technical Interviewer for a Senior Software Engineer role. The candidate just introduced themselves: "''
              @ userMessage @ ''".'' @ newline
              @ ''Task: Ask a specific technical question about their coding experience or a relevant technology.''
              @ newline @ newline @ ''Technical Question:''
         else
           (let recentMessages = slice_last4 history;
                conversation = concat (map (\<lambda>msg.
                    if role msg = User
                    then ''Candidate: '' @ content msg @ newline
                    else ''Interviewer: '' @ content msg @ newline) recentMessages)
            in ''Instruction: You are a strict Technical Interviewer. Analyze the conversation below. Based on the candidate's last answer, ask a follow-up TECHNICAL question to test their depth of knowledge. Avoid generic questions. Focus on "how" and "why".''
               @ newline @ newline @ ''Conversation History:'' @ newline @ conversation
               @ newline @ newline @ ''Candidate's Last Answer: "'' @ userMessage @ ''"''
               @ newline @ newline @ ''Follow-up Technical Question:''))\<close>

subsection \<open>The validation gate\<close>

definition badPhrases :: "string list" where
  "badPhrases =
     [''professional job interviewer'',
      ''i am a'',
      ''my name is'',
      ''i'm here to'',
      ''let me introduce'']"

text \<open>
  The comparison \<open>overlap > userWords.length * 0.7\<close> is one of doubles. The literal
  \<open>0.7\<close> is the double \<open>6305039478318694 / 2^53\<close>; the product with the integer
  \<open>n\<close> is the exact product rounded to 53 significant bits, ties to the even
  neighbour (\<open>round_to_double\<close>); \<open>overlap\<close> is an integer and enters exactly. All
  three are kept as numerators over \<open>2^53\<close>.
\<close>

definition double_0_7 :: nat where
  "double_0_7 = 6305039478318694"

definition times_0_7 :: "nat \<Rightarrow> nat" where
  "times_0_7 n = round_to_double (n * double_0_7)"

definition exceeds_times_0_7 :: "nat \<Rightarrow> nat \<Rightarrow> bool" where
  "exceeds_times_0_7 overlap n = (overlap * 2 ^ 53 > times_0_7 n)"

definition userWords :: "string \<Rightarrow> string list" where
  "userWords userMessage = split (CHR '' '') (toLowerCase userMessage)"

definition responseWords :: "string \<Rightarrow> string list" where
  "responseWords response = split (CHR '' '') (toLowerCase response)"

definition overlap :: "string \<Rightarrow> string \<Rightarrow> nat" where
  "overlap response userMessage =
     length (filter (\<lambda>word. length word > 4 \<and> List.member (responseWords response) word)
                    (userWords userMessage))"

definition validateResponse :: "string \<Rightarrow> string \<Rightarrow> bool" where
  "validateResponse response userMessage =
     (let lowerResponse = toLowerCase response
      in if list_ex (\<lambda>phrase. str_includes lowerResponse phrase) badPhrases then False
         else if \<not> str_includes response ''?'' then False
         else if length response < 10 \<or> length response > 300 then False
         else if exceeds_times_0_7 (overlap response userMessage)
                                   (length (userWords userMessage)) then False
         else True)"

subsection \<open>Fallback questions\<close>

text \<open>
  \<open>Math.random()\<close> gives a number that is at least 0 and less than 1. The type of its
  results carries that contract, so the index computed from a draw is always one of the
  five generic questions. The product with 5 is taken exactly.
\<close>

typedef random_draw = "{r :: real. 0 \<le> r \<and> r < 1}"
  morphisms draw_value Abs_random_draw
  by (rule exI [of _ 0]) simp

definition genericQuestions :: "string list" where
  "genericQuestions =
     [''That's interesting. Can you elaborate on that?'',
      ''What made you choose that particular approach?'',
      ''How did that experience shape your career goals?'',
      ''What would you do differently if you could do it again?'',
      ''What did you learn from that experience?'']"

definition getFallbackQuestion :: "random_draw \<Rightarrow> string \<Rightarrow> string" where
  "getFallbackQuestion rnd userMessage =
     (let lowerMsg = toLowerCase userMessage
      in if str_includes lowerMsg ''experience'' \<or> str_includes lowerMsg ''worked''
         then ''Can you tell me more about the challenges you faced in that role?''
         else if str_includes lowerMsg ''project'' \<or> str_includes lowerMsg ''built''
         then ''What technologies did you use and why did you choose them?''
         else if str_includes lowerMsg ''team'' \<or> str_includes lowerMsg ''collaborate''
         then ''How do you handle disagreements within a team?''
         else if str_includes lowerMsg ''skill'' \<or> str_includes lowerMsg ''learn''
         then ''What's the most challenging skill you've had to learn recently?''
         else if str_includes lowerMsg ''problem'' \<or> str_includes lowerMsg ''solve''
         then ''Can you walk me through your problem-solving approach?''
         else genericQuestions ! nat \<lfloor>draw_value rnd * real (length genericQuestions)\<rfloor>)"

subsection \<open>Cleaning a generated text\<close>

definition roleLabels :: "string list" where
  "roleLabels = [''interviewer:'', ''question:'', ''ask:'', ''response:'']"

text \<open>
  \<open>replace(/^(Interviewer:|Question:|Ask:|Response:)\s*/i, '')\<close>: the first label that
  the text starts with, in any letter case, goes together with the white space after it.
\<close>

definition stripRoleLabel :: "string \<Rightarrow> string" where
  "stripRoleLabel s =
     (case filter (\<lambda>l. toLowerCase (take (length l) s) = l) roleLabels of
        [] \<Rightarrow> s
      | l # _ \<Rightarrow> dropWhile isSpace (drop (length l) s))"

definition isQuote :: "char \<Rightarrow> bool" where
  \<open>isQuote c = (c = CHR ''"'' \<or> c = CHR 0x27)\<close>

text \<open>\<open>replace(/^["']\s*/, '')\<close>\<close>

definition stripLeadingQuote :: "string \<Rightarrow> string" where
  "stripLeadingQuote s =
     (case s of
        [] \<Rightarrow> []
      | c # cs \<Rightarrow> if isQuote c then dropWhile isSpace cs else s)"

text \<open>\<open>replace(/\s*["']$/, '')\<close>\<close>

definition stripTrailingQuote :: "string \<Rightarrow> string" where
  "stripTrailingQuote s =
     (if s \<noteq> [] \<and> isQuote (last s) then trimEnd (butlast s) else s)"

definition endsSentence :: "string \<Rightarrow> bool" where
  "endsSentence s = (s \<noteq> [] \<and> last s \<in> {CHR ''.'', CHR ''!'', CHR ''?''})"

text \<open>
  The second statement of \<open>cleanResponse\<close>: a text that does not end in \<open>.\<close>, \<open>!\<close> or
  \<open>?\<close> is cut after its last full stop when that stop lies past the middle
  (\<open>lastSentence > cleaned.length / 2\<close>, a comparison of numbers, not of integers).
\<close>

definition dropIncompleteSentence :: "string \<Rightarrow> string" where
  "dropIncompleteSentence cleaned =
     (if length cleaned > 0 \<and> \<not> endsSentence cleaned
      then (let lastSentence = lastIndexOf cleaned (CHR ''.'')
            in if 2 * lastSentence > int (length cleaned)
               then substring0 cleaned (nat (lastSentence + 1))
               else cleaned)
      else cleaned)"

text \<open>The third statement: a text with a question mark ends at its last question mark.\<close>

definition cutAfterLastQuestion :: "string \<Rightarrow> string" where
  "cutAfterLastQuestion cleaned =
     (if str_includes cleaned ''?'' \<and> \<not> endsWith cleaned ''?''
      then (let questionMark = lastIndexOf cleaned (CHR ''?'')
            in substring0 cleaned (nat (questionMark + 1)))
      else cleaned)"

definition cleanResponse :: "string \<Rightarrow> string" where
  "cleanResponse response =
     (let cleaned = trim (stripTrailingQuote (stripLeadingQuote (stripRoleLabel response)));
          cleaned = dropIncompleteSentence cleaned;
          cleaned = cutAfterLastQuestion cleaned
      in cleaned)"

subsection \<open>Generation with retries\<close>

definition gen_options_for :: "double \<Rightarrow> gen_options" where
  "gen_options_for t =
     \<lparr> max_new_tokens = 80, temperature = t, top_k = 50, top_p = double_0_92,
       do_sample = True, repetition_penalty = double_1_5, num_beams = 2 \<rparr>"

text \<open>
  The \<open>for\<close> loop of \<open>generateWithRetry\<close>, from attempt number \<open>attempt\<close> with the
  temperature \<open>t\<close>: \<open>Some\<close> of the response that passed the gate, or \<open>None\<close> when the
  attempts are used up. A throw inside the \<open>try\<close> skips the rest of the body, the
  temperature increment included. \<open>temperature += 0.15\<close> is an addition of doubles.
\<close>

function retry_loop ::
  "'p pipeline_fn \<Rightarrow> message list \<Rightarrow> string \<Rightarrow> nat \<Rightarrow> nat \<Rightarrow> double \<Rightarrow> 'p \<Rightarrow> string option \<times> 'p"
where
  "retry_loop run history userMessage maxRetries attempt t p =
     (if attempt < maxRetries
      then (let prompt = buildContextualPrompt history userMessage
            in case run p prompt (gen_options_for t) of
                 (Inl e, p') \<Rightarrow>
                   retry_loop run history userMessage maxRetries (Suc attempt) t p'
               | (Inr generated_text, p') \<Rightarrow>
                   (let aiResponse = cleanResponse (trim generated_text)
                    in if validateResponse aiResponse userMessage
                       then (Some aiResponse, p')
                       else retry_loop run history userMessage maxRetries (Suc attempt)
                              (double_add t double_0_15) p'))
      else (None, p))"
  by pat_completeness auto
termination
  by (relation "measure (\<lambda>(run, history, userMessage, maxRetries, attempt, t, p). maxRetries - attempt)")
     auto

definition generateWithRetry ::
  "'p pipeline_fn \<Rightarrow> random_draw \<Rightarrow> message list \<Rightarrow> string \<Rightarrow> nat \<Rightarrow> 'p \<Rightarrow> string \<times> 'p"
where
  "generateWithRetry run rnd history userMessage maxRetries p =
     (case retry_loop run history userMessage maxRetries 0 double_0_8 p of
        (Some aiResponse, p') \<Rightarrow> (aiResponse, p')
      | (None, p') \<Rightarrow> (getFallbackQuestion rnd userMessage, p'))"

definition generateResponse ::
  "'p pipeline_fn \<Rightarrow> random_draw \<Rightarrow> 'p LLMClient \<Rightarrow> string \<Rightarrow> (error + string) \<times> 'p LLMClient"
where
  "generateResponse run rnd s userMessage =
     (if \<not> isModelLoaded s
      then (Inl (Error ''Model not loaded. Call initialize() first.''), s)
      else (let h1 = conversationHistory s @ [\<lparr> role = User, content = userMessage \<rparr>];
                (response, p') = generateWithRetry run rnd h1 userMessage 3 (pipeline s);
                h2 = h1 @ [\<lparr> role = Assistant, content = response \<rparr>]
            in (Inr response, s\<lparr> conversationHistory := h2, pipeline := p' \<rparr>)))"

definition getHistory :: "'p LLMClient \<Rightarrow> message list" where
  "getHistory s = conversationHistory s"

definition clearHistory :: "'p LLMClient \<Rightarrow> 'p LLMClient" where
  "clearHistory s = s\<lparr> conversationHistory := [] \<rparr>"

text \<open>
  A recording wrapper around a pipeline, as a test's stub would be: the state carries
  the list of the calls made so far, each with the prompt, the options and the outcome.
\<close>

record call =
  call_prompt :: string
  call_options :: gen_options
  call_outcome :: "error + string"

definition recorded :: "'p pipeline_fn \<Rightarrow> (call list \<times> 'p) pipeline_fn" where
  "recorded run = (\<lambda>(calls, p) prompt opts.
     (case run p prompt opts of
        (out, p') \<Rightarrow>
          (out, (calls @ [\<lparr> call_prompt = prompt, call_options = opts, call_outcome = out \<rparr>], p'))))"

subsection \<open>Notions used to state the properties\<close>

text \<open>
  The overlap criterion as the specification words it, for comparison with the code's:
  the words longer than 4 characters shared by both, as a fraction of the utterance's
  words longer than 4 characters, exceed 0.7.
\<close>

definition spec_overlap_exceeds :: "string \<Rightarrow> string \<Rightarrow> bool" where
  "spec_overlap_exceeds response userMessage =
     (let qualifying = filter (\<lambda>word. length word > 4) (userWords userMessage);
          shared = filter (\<lambda>word. List.member (responseWords response) word) qualifying
      in 10 * length shared > 7 * length qualifying)"

text \<open>The three criteria of \<open>validateResponse\<close> that come before the overlap.\<close>

definition passes_other_gates :: "string \<Rightarrow> bool" where
  "passes_other_gates response =
     (\<not> list_ex (\<lambda>phrase. str_includes (toLowerCase response) phrase) badPhrases
      \<and> str_includes response ''?''
      \<and> 10 \<le> length response \<and> length response \<le> 300)"

text \<open>A recorded call on which the capability returned a text (it did not throw).\<close>

definition returned :: "call \<Rightarrow> bool" where
  "returned c = (case call_outcome c of Inl e \<Rightarrow> False | Inr generated \<Rightarrow> True)"

text \<open>The five questions of the keyword rules; with the generic ones, the fallback pool.\<close>

definition keywordQuestions :: "string list" where
  "keywordQuestions =
     [''Can you tell me more about the challenges you faced in that role?'',
      ''What technologies did you use and why did you choose them?'',
      ''How do you handle disagreements within a team?'',
      ''What's the most challenging skill you've had to learn recently?'',
      ''Can you walk me through your problem-solving approach?'']"

definition fallbackPool :: "string list" where
  "fallbackPool = keywordQuestions @ genericQuestions"

text \<open>
  Two capabilities to run the model on: one that always returns the same text, and one
  that throws on its first call and returns a text without a question mark after that.
\<close>

definition stub_pipeline :: "string \<Rightarrow> unit pipeline_fn" where
  "stub_pipeline generated = (\<lambda>p prompt opts. (Inr generated, p))"

definition flaky_pipeline :: "nat pipeline_fn" where
  "flaky_pipeline = (\<lambda>n prompt opts.
     (if n = 0 then Inl (Error ''network'') else Inr ''Tell me more'', Suc n))"


text \<open>The temperature after \<open>j\<close> executions of \<open>temperature += 0.15\<close>, from \<open>0.8\<close>.\<close>

definition raised :: "nat \<Rightarrow> double" where
  "raised j = ((\<lambda>t. double_add t double_0_15) ^^ j) double_0_8"

text \<open>The temperatures a run of attempts must show, given how each attempt ended.\<close>

fun temperatures_after :: "double \<Rightarrow> (error + string) list \<Rightarrow> double list" where
  "temperatures_after t [] = []"
| "temperatures_after t (Inl e # outs) = t # temperatures_after t outs"
| "temperatures_after t (Inr generated # outs) =
     t # temperatures_after (double_add t double_0_15) outs"

definition returned_outcome :: "error + string \<Rightarrow> bool" where
  "returned_outcome out = (case out of Inl e \<Rightarrow> False | Inr generated \<Rightarrow> True)"

text \<open>A draw of \<open>Math.random()\<close>, for running the model on an example.\<close>

definition rnd0 :: random_draw where
  "rnd0 = Abs_random_draw 0"



section \<open>A reference platform\<close>

text \<open>
  One platform that meets the contract the theorems about persistence ask for, so that
  they can be run: a storage that keeps every item, and the JSON text of an array of
  pairs of strings, written as \<open>JSON.stringify\<close> writes it and read back by a parser
  for exactly that shape. The parser is not all of \<open>JSON.parse\<close>: it agrees with
  \<open>JSON.parse\<close> followed by \<open>new Map\<close> on the texts that \<open>persist\<close> writes, on
  \<open>null\<close> and on texts that are not JSON; a JSON text of another layout (white space
  between the tokens, entries that are not pairs of strings) is refused here where the
  browser would read it.
\<close>

definition hex_digit :: "nat \<Rightarrow> char" where
  "hex_digit n = (''0123456789abcdef'') ! (n mod 16)"

definition json_escape :: "char \<Rightarrow> string" where
  \<open>json_escape c =
     (if c = CHR ''"'' then [CHR 0x5C, CHR ''"'']
      else if c = CHR 0x5C then [CHR 0x5C, CHR 0x5C]
      else if c = CHR 0x08 then [CHR 0x5C, CHR ''b'']
      else if c = CHR 0x0C then [CHR 0x5C, CHR ''f'']
      else if c = CHR 0x0A then [CHR 0x5C, CHR ''n'']
      else if c = CHR 0x0D then [CHR 0x5C, CHR ''r'']
      else if c = CHR 0x09 then [CHR 0x5C, CHR ''t'']
      else if (of_char c :: nat) < 32
      then [CHR 0x5C, CHR ''u'', CHR ''0'', CHR ''0'',
            hex_digit (of_char c div 16), hex_digit (of_char c)]
      else [c])\<close>

definition json_quote :: "string \<Rightarrow> string" where
  \<open>json_quote s = [CHR ''"''] @ concat (map json_escape s) @ [CHR ''"'']\<close>

definition json_entry :: "string \<times> string \<Rightarrow> string" where
  "json_entry e = ''['' @ json_quote (fst e) @ '','' @ json_quote (snd e) @ '']''"

fun json_join :: "string list \<Rightarrow> string" where
  "json_join [] = []"
| "json_join [x] = x"
| "json_join (x # y # ys) = x @ '','' @ json_join (y # ys)"

definition json_stringify :: "(string \<times> string) list \<Rightarrow> string" where
  "json_stringify es = ''['' @ json_join (map json_entry es) @ '']''"

definition hex_value :: "char \<Rightarrow> nat option" where
  "hex_value c =
     (let n = (of_char c :: nat)
      in if 48 \<le> n \<and> n \<le> 57 then Some (n - 48)
         else if 97 \<le> n \<and> n \<le> 102 then Some (n - 87)
         else if 65 \<le> n \<and> n \<le> 70 then Some (n - 55)
         else None)"

definition json_unescape :: "char \<Rightarrow> char option" where
  \<open>json_unescape e =
     (if e = CHR ''"'' then Some (CHR ''"'')
      else if e = CHR 0x5C then Some (CHR 0x5C)
      else if e = CHR ''/'' then Some (CHR ''/'')
      else if e = CHR ''b'' then Some (CHR 0x08)
      else if e = CHR ''f'' then Some (CHR 0x0C)
      else if e = CHR ''n'' then Some (CHR 0x0A)
      else if e = CHR ''r'' then Some (CHR 0x0D)
      else if e = CHR ''t'' then Some (CHR 0x09)
      else None)\<close>

definition push :: "char \<Rightarrow> (string \<times> string) option \<Rightarrow> (string \<times> string) option" where
  "push c r = (case r of None \<Rightarrow> None | Some (s, rest) \<Rightarrow> Some (c # s, rest))"

text \<open>The characters of a JSON string after its opening quote, and what follows the closing one.\<close>

fun json_string_body :: "string \<Rightarrow> (string \<times> string) option" where
  "json_string_body [] = None"
| \<open>json_string_body (c # cs) =
     (if c = CHR ''"'' then Some ([], cs)
      else if c = CHR 0x5C then
        (case cs of
           [] \<Rightarrow> None
         | e # cs1 \<Rightarrow>
             if e = CHR ''u'' then
               (case cs1 of
                  h1 # h2 # h3 # h4 # cs2 \<Rightarrow>
                    (case (hex_value h1, hex_value h2, hex_value h3, hex_value h4) of
                       (Some a, Some b, Some c3, Some d) \<Rightarrow>
                         if a = 0 \<and> b = 0 then push (char_of (16 * c3 + d)) (json_string_body cs2)
                         else None
                     | _ \<Rightarrow> None)
                | _ \<Rightarrow> None)
             else (case json_unescape e of
                     None \<Rightarrow> None
                   | Some x \<Rightarrow> push x (json_string_body cs1)))
      else if (of_char c :: nat) < 32 then None
      else push c (json_string_body cs))\<close>

definition json_string :: "string \<Rightarrow> (string \<times> string) option" where
  \<open>json_string s =
     (case s of
        [] \<Rightarrow> None
      | c # cs \<Rightarrow> if c = CHR ''"'' then json_string_body cs else None)\<close>

definition json_parse_entry :: "string \<Rightarrow> ((string \<times> string) \<times> string) option" where
  "json_parse_entry s =
     (case s of
        [] \<Rightarrow> None
      | c # cs \<Rightarrow>
          if c \<noteq> CHR ''['' then None
          else (case json_string cs of
                  None \<Rightarrow> None
                | Some (k, r1) \<Rightarrow>
                    (case r1 of
                       [] \<Rightarrow> None
                     | c1 # r2 \<Rightarrow>
                         if c1 \<noteq> CHR '','' then None
                         else (case json_string r2 of
                                 None \<Rightarrow> None
                               | Some (v, r3) \<Rightarrow>
                                   (case r3 of
                                      [] \<Rightarrow> None
                                    | c2 # r4 \<Rightarrow>
                                        if c2 = CHR '']'' then Some ((k, v), r4) else None)))))"

text \<open>
  The entries after the opening bracket of the array. The first argument bounds the
  number of entries read; the length of the text is always enough.
\<close>

fun json_parse_entries :: "nat \<Rightarrow> string \<Rightarrow> (string \<times> string) list option" where
  "json_parse_entries 0 s = None"
| "json_parse_entries (Suc fuel) s =
     (case json_parse_entry s of
        None \<Rightarrow> None
      | Some (e, rest) \<Rightarrow>
          (case rest of
             [] \<Rightarrow> None
           | c # rest' \<Rightarrow>
               if c = CHR '']'' then (if rest' = [] then Some [e] else None)
               else if c = CHR '','' then map_option ((#) e) (json_parse_entries fuel rest')
               else None))"

text \<open>\<open>JSON.parse('null')\<close> is \<open>null\<close>, and \<open>new Map(null)\<close> is the empty map.\<close>

definition json_parse :: "string \<Rightarrow> error + (string \<times> string) list" where
  "json_parse s =
     (if s = ''null'' then Inr []
      else (case s of
              [] \<Rightarrow> Inl (Error ''SyntaxError'')
            | c # rest \<Rightarrow>
                if c \<noteq> CHR ''['' then Inl (Error ''SyntaxError'')
                else if rest = '']'' then Inr []
                else (case json_parse_entries (length s) rest of
                        None \<Rightarrow> Inl (Error ''SyntaxError'')
                      | Some es \<Rightarrow> Inr es)))"

type_synonym storage = "string \<Rightarrow> string option"

definition browser :: "(storage, string) platform" where
  "browser =
     \<lparr> setItem = (\<lambda>st k v. Inr (st(k \<mapsto> v))),
       getItem = (\<lambda>st k. Inr (st k)),
       stringify = (\<lambda>es. Inr (json_stringify es)),
       parse = json_parse \<rparr>"

text \<open>A storage that refuses every access.\<close>

definition blocked :: "(storage, string) platform" where
  "blocked =
     \<lparr> setItem = (\<lambda>st k v. Inl (Error ''SecurityError'')),
       getItem = (\<lambda>st k. Inl (Error ''SecurityError'')),
       stringify = (\<lambda>es. Inr (json_stringify es)),
       parse = json_parse \<rparr>"

section \<open>Properties of the cache\<close>


lemma Map_has_iff: "Map_has m k \<longleftrightarrow> k \<in> set (map fst m)"
  by (simp add: Map_has_def map_of_eq_None_iff)

lemma keys_Map_set:
  "map fst (Map_set m k v) = (if k \<in> set (map fst m) then map fst m else map fst m @ [k])"
  by (induction m) (auto split: if_splits)

lemma Map_set_new: "k \<notin> set (map fst m) \<Longrightarrow> Map_set m k v = m @ [(k, v)]"
  by (induction m) auto

lemma length_Map_set:
  "length (Map_set m k v) = (if k \<in> set (map fst m) then length m else Suc (length m))"
  using arg_cong [OF keys_Map_set [of m k v], of length] by (simp split: if_splits)

lemma distinct_Map_set:
  "distinct (map fst m) \<Longrightarrow> distinct (map fst (Map_set m k v))"
  by (simp add: keys_Map_set)

lemma map_of_Map_set: "map_of (Map_set m k v) = (map_of m)(k \<mapsto> v)"
  by (induction m) (auto simp: fun_eq_iff)

lemma keys_Map_delete: "map fst (Map_delete m k) = removeAll k (map fst m)"
  by (induction m) (auto simp: Map_delete_def)

lemma distinct_Map_delete:
  "distinct (map fst m) \<Longrightarrow> distinct (map fst (Map_delete m k))"
  by (simp add: keys_Map_delete distinct_removeAll)

lemma Map_delete_absent: "k \<notin> set (map fst m) \<Longrightarrow> Map_delete m k = m"
  unfolding Map_delete_def by (induction m) auto

lemma Map_delete_first:
  "distinct (map fst (e # m)) \<Longrightarrow> Map_delete (e # m) (fst e) = m"
  using Map_delete_absent [of "fst e" m] by (simp add: Map_delete_def)

lemma foldl_Map_set_distinct:
  "distinct (map fst (m0 @ es)) \<Longrightarrow> foldl (\<lambda>m e. Map_set m (fst e) (snd e)) m0 es = m0 @ es"
proof (induction es arbitrary: m0)
  case Nil
  then show ?case by simp
next
  case (Cons e es)
  have new: "fst e \<notin> set (map fst m0)" using Cons.prems by auto
  have "Map_set m0 (fst e) (snd e) = m0 @ [e]"
    using Map_set_new [OF new, of "snd e"] by simp
  moreover have "distinct (map fst ((m0 @ [e]) @ es))" using Cons.prems by simp
  ultimately show ?case using Cons.IH [of "m0 @ [e]"] by simp
qed

lemma Map_new_distinct: "distinct (map fst es) \<Longrightarrow> Map_new es = es"
  using foldl_Map_set_distinct [of "[]" es] by (simp add: Map_new_def)


lemma cache_set_evicts_first:
  assumes d: "distinct (map fst (cache c))"
    and ne: "cache c = e # m"
    and full: "maxSize c \<le> int (length (cache c))"
    and new: "\<not> cache_has c key"
  shows "cache (cache_set c key v) = m @ [(hash key, v)]"
proof -
  have absent: "hash key \<notin> set (map fst (e # m))"
    using new ne by (simp add: cache_has_def Map_has_iff)
  have del: "Map_delete (e # m) (fst e) = m"
    using d ne Map_delete_first [of e m] by simp
  have "hash key \<notin> set (map fst m)" using absent by simp
  then have app: "Map_set m (hash key) v = m @ [(hash key, v)]" by (rule Map_set_new)
  have "\<not> Map_has (e # m) (hash key)" using absent by (simp only: Map_has_iff not_False_eq_True)
  then show ?thesis
    using ne full del app by (simp add: cache_set_def Map_first_key_def Let_def)
qed

lemma cache_set_below_capacity:
  assumes "int (length (cache c)) < maxSize c" and "\<not> cache_has c key"
  shows "cache (cache_set c key v) = cache c @ [(hash key, v)]"
  using assms by (simp add: cache_set_def cache_has_def Let_def Map_set_new Map_has_iff)

lemma cache_set_present:
  assumes "cache_has c key"
  shows "cache (cache_set c key v) = Map_set (cache c) (hash key) v"
  using assms by (simp add: cache_set_def cache_has_def Let_def)

lemma maxSize_cache_set [simp]: "maxSize (cache_set c key v) = maxSize c"
  by (simp add: cache_set_def Let_def)

lemma cache_set_inv:
  assumes inv: "cache_inv c"
  shows "cache_inv (cache_set c key v)"
proof (cases "cache_has c key")
  case True
  then have "hash key \<in> set (map fst (cache c))" by (simp add: cache_has_def Map_has_iff)
  then show ?thesis
    using inv cache_set_present [OF True, of v]
    by (simp add: cache_inv_def length_Map_set distinct_Map_set)
next
  case False
  then have absent: "hash key \<notin> set (map fst (cache c))" by (simp add: cache_has_def Map_has_iff)
  show ?thesis
  proof (cases "int (length (cache c)) < maxSize c")
    case True
    then show ?thesis
      using inv absent cache_set_below_capacity [OF True False, of v]
      by (simp add: cache_inv_def)
  next
    case full: False
    show ?thesis
    proof (cases "cache c")
      case Nil
      then have "cache (cache_set c key v) = [(hash key, v)]"
        using full by (simp add: cache_set_def Map_has_def Map_first_key_def Let_def)
      then show ?thesis by (simp add: cache_inv_def)
    next
      case (Cons e m)
      have d: "distinct (map fst (cache c))" using inv by (simp add: cache_inv_def)
      have "cache (cache_set c key v) = m @ [(hash key, v)]"
        using cache_set_evicts_first [OF d Cons _ False] full by simp
      then show ?thesis using inv absent Cons by (simp add: cache_inv_def)
    qed
  qed
qed

lemma set_all_inv:
  assumes "cache_inv c"
  shows "cache_inv (set_all c ops) \<and> maxSize (set_all c ops) = maxSize c"
  using assms
proof (induction ops arbitrary: c)
  case Nil
  then show ?case by (simp add: set_all_def)
next
  case (Cons kv ops)
  have "cache_inv (cache_set c (fst kv) (snd kv))" using Cons.prems by (rule cache_set_inv)
  then show ?case
    using Cons.IH [of "cache_set c (fst kv) (snd kv)"] by (simp add: set_all_def)
qed

text \<open>
  Claim C3, as amended. After each of any sequence of \<open>set\<close> calls on a new cache (after
  the first \<open>k\<close> calls, for every \<open>k\<close>) there is at most one entry per normalized key,
  and the number of entries is at most the configured maximum when that is at least 1;
  a cache configured with a maximum below 1 holds at most one entry.
\<close>

theorem cache_capacity_invariant:
  "(1 \<le> n \<longrightarrow> int (cache_size (set_all (new_CacheManager n) (take k ops))) \<le> n)
 \<and> (n < 1 \<longrightarrow> cache_size (set_all (new_CacheManager n) (take k ops)) \<le> 1)
 \<and> distinct (map fst (cache (set_all (new_CacheManager n) (take k ops))))"
proof -
  have "cache_inv (new_CacheManager n :: 'a CacheManager)"
    by (simp add: cache_inv_def new_CacheManager_def)
  then have "cache_inv (set_all (new_CacheManager n :: 'a CacheManager) (take k ops))
    \<and> maxSize (set_all (new_CacheManager n :: 'a CacheManager) (take k ops)) = n"
    using set_all_inv [of "new_CacheManager n" "take k ops"] by (simp add: new_CacheManager_def)
  then show ?thesis by (auto simp add: cache_inv_def cache_size_def)
qed

theorem cache_capacity_invariant_witness:
  "int (cache_size (set_all (new_CacheManager 2)
        (take 3 [(''a'', ''1''), (''b'', ''2''), (''c'', ''3''), (''d'', ''4'')]))) \<le> 2
 \<and> cache_size (set_all (new_CacheManager 0)
        (take 3 [(''a'', ''1''), (''b'', ''2''), (''c'', ''3''), (''d'', ''4'')])) \<le> 1
 \<and> distinct (map fst (cache (set_all (new_CacheManager 2)
        (take 3 [(''a'', ''1''), (''b'', ''2''), (''c'', ''3''), (''d'', ''4'')]))))"
  using cache_capacity_invariant
    [of 2 3 "[(''a'', ''1''), (''b'', ''2''), (''c'', ''3''), (''d'', ''4'')]"]
    cache_capacity_invariant
    [of 0 3 "[(''a'', ''1''), (''b'', ''2''), (''c'', ''3''), (''d'', ''4'')]"]
  by simp

text \<open>
  Claim C3 as stated fails at the maximum size 0: the constructor accepts it, the guard
  of \<open>set\<close> finds nothing to evict in the empty map, and the entry is stored.
\<close>

theorem cache_capacity_zero_counterexample:
  "\<not> int (cache_size (set_all (new_CacheManager 0) [(''a'', ''x'')])) \<le> 0"
  by code_simp


lemma cache_get_hit:
  assumes "Map_get (cache c) (hash key) = Some x"
  shows "cache_get c key =
    (Some x, c\<lparr> hits := hits c + 1, cache := Map_delete (cache c) (hash key) @ [(hash key, x)] \<rparr>)"
proof -
  have "hash key \<notin> set (map fst (Map_delete (cache c) (hash key)))"
    by (simp add: keys_Map_delete)
  then have "Map_set (Map_delete (cache c) (hash key)) (hash key) x
      = Map_delete (cache c) (hash key) @ [(hash key, x)]"
    by (rule Map_set_new)
  then show ?thesis using assms by (simp add: cache_get_def Map_has_def Map_get_def Let_def)
qed

lemma cache_get_miss:
  assumes "Map_get (cache c) (hash key) = None"
  shows "cache_get c key = (None, c\<lparr> misses := misses c + 1 \<rparr>)"
  using assms by (simp add: cache_get_def Map_has_def Map_get_def Let_def)

lemma three_sets:
  assumes "hash A \<noteq> hash B" "hash A \<noteq> hash C" "hash B \<noteq> hash C"
  shows "cache (set_all (new_CacheManager 2) [(A, v1), (B, v2), (C, v3)])
       = [(hash B, v2), (hash C, v3)]"
  using assms
  by (simp add: set_all_def cache_set_def new_CacheManager_def Map_has_def Map_first_key_def
      Map_delete_def Let_def)

lemma sets_get_set:
  assumes "hash A \<noteq> hash B" "hash A \<noteq> hash C" "hash B \<noteq> hash C"
  shows "cache (cache_set (snd (cache_get (set_all (new_CacheManager 2) [(A, v1), (B, v2)]) A)) C v3)
       = [(hash A, v1), (hash C, v3)]"
  using assms
  by (simp add: set_all_def cache_set_def cache_get_def new_CacheManager_def Map_has_def
      Map_get_def Map_first_key_def Map_delete_def Let_def)

text \<open>
  What eviction does. A \<open>set\<close> of a new key on a cache at capacity removes exactly the
  first entry of the map's iteration order and appends the new one; a \<open>get\<close> that hits
  moves its entry to the end. For raw keys \<open>A\<close>, \<open>B\<close>, \<open>C\<close> with three different
  normalized forms and the maximum size 2: after \<open>set(A); set(B); set(C)\<close> the key \<open>A\<close>
  is absent and \<open>B\<close>, \<open>C\<close> are present, and after \<open>set(A); set(B); get(A); set(C)\<close> the
  key \<open>B\<close> is absent and \<open>A\<close>, \<open>C\<close> are present.
\<close>

lemma lru_eviction_order:
  "(distinct (map fst (cache c)) \<and> cache c = e # m \<and> maxSize c \<le> int (length (cache c))
      \<and> \<not> cache_has c key
    \<longrightarrow> cache (cache_set c key v) = m @ [(hash key, v)])
 \<and> (Map_get (cache c) (hash key') = Some x
    \<longrightarrow> cache_get c key' =
        (Some x, c\<lparr> hits := hits c + 1,
                    cache := Map_delete (cache c) (hash key') @ [(hash key', x)] \<rparr>))
 \<and> (hash A \<noteq> hash B \<and> hash A \<noteq> hash C \<and> hash B \<noteq> hash C
    \<longrightarrow> (let c1 = set_all (new_CacheManager 2) [(A, v1), (B, v2), (C, v3)]
         in \<not> cache_has c1 A \<and> cache_has c1 B \<and> cache_has c1 C)
      \<and> (let c2 = cache_set (snd (cache_get (set_all (new_CacheManager 2) [(A, v1), (B, v2)]) A)) C v3
         in \<not> cache_has c2 B \<and> cache_has c2 A \<and> cache_has c2 C))"
proof (intro conjI impI)
  assume "distinct (map fst (cache c)) \<and> cache c = e # m \<and> maxSize c \<le> int (length (cache c))
      \<and> \<not> cache_has c key"
  then show "cache (cache_set c key v) = m @ [(hash key, v)]"
    using cache_set_evicts_first [of c e m key v] by blast
next
  assume "Map_get (cache c) (hash key') = Some x"
  then show "cache_get c key' =
        (Some x, c\<lparr> hits := hits c + 1,
                    cache := Map_delete (cache c) (hash key') @ [(hash key', x)] \<rparr>)"
    by (rule cache_get_hit)
next
  assume "hash A \<noteq> hash B \<and> hash A \<noteq> hash C \<and> hash B \<noteq> hash C"
  then show "let c1 = set_all (new_CacheManager 2) [(A, v1), (B, v2), (C, v3)]
         in \<not> cache_has c1 A \<and> cache_has c1 B \<and> cache_has c1 C"
    using three_sets [of A B C v1 v2 v3] by (auto simp add: cache_has_def Map_has_def Let_def)
next
  assume "hash A \<noteq> hash B \<and> hash A \<noteq> hash C \<and> hash B \<noteq> hash C"
  then show "let c2 = cache_set (snd (cache_get (set_all (new_CacheManager 2) [(A, v1), (B, v2)]) A)) C v3
         in \<not> cache_has c2 B \<and> cache_has c2 A \<and> cache_has c2 C"
    using sets_get_set [of A B C v1 v2 v3] by (auto simp add: cache_has_def Map_has_def Let_def)
qed

lemma lru_eviction_order_example:
  "cache (cache_set \<lparr> cache = [(''a'', ''1''), (''b'', ''2'')], maxSize = 2, hits = 0, misses = 0 \<rparr> ''C'' ''3'')
     = [(''b'', ''2''), (''c'', ''3'')]
 \<and> cache_get \<lparr> cache = [(''a'', ''1''), (''b'', ''2'')], maxSize = 2, hits = 0, misses = 0 \<rparr> '' A''
     = (Some ''1'', \<lparr> cache = [(''b'', ''2''), (''a'', ''1'')], maxSize = 2, hits = 1, misses = 0 \<rparr>)
 \<and> (let c1 = set_all (new_CacheManager 2) [(''A'', ''1''), (''B'', ''2''), (''C'', ''3'')]
     in \<not> cache_has c1 ''A'' \<and> cache_has c1 ''B'' \<and> cache_has c1 ''C'')
 \<and> (let c2 = cache_set (snd (cache_get (set_all (new_CacheManager 2) [(''A'', ''1''), (''B'', ''2'')]) ''A'')) ''C'' ''3''
     in \<not> cache_has c2 ''B'' \<and> cache_has c2 ''A'' \<and> cache_has c2 ''C'')"
proof -
  let ?c = "\<lparr> cache = [(''a'', ''1''), (''b'', ''2'')], maxSize = 2, hits = 0, misses = 0 \<rparr>"
  have hs: "hash ''A'' = ''a''" "hash ''B'' = ''b''" "hash ''C'' = ''c''" "hash '' A'' = ''a''"
    by code_simp+
  have h1: "distinct (map fst (cache ?c)) \<and> cache ?c = (''a'', ''1'') # [(''b'', ''2'')]
      \<and> maxSize ?c \<le> int (length (cache ?c)) \<and> \<not> cache_has ?c ''C''"
    by (simp add: cache_has_def Map_has_def hs)
  have h2: "Map_get (cache ?c) (hash '' A'') = Some ''1''"
    by (simp add: Map_get_def hs)
  have h3: "hash ''A'' \<noteq> hash ''B'' \<and> hash ''A'' \<noteq> hash ''C'' \<and> hash ''B'' \<noteq> hash ''C''"
    by (simp add: hs)
  show ?thesis
    using lru_eviction_order [of ?c "(''a'', ''1'')" "[(''b'', ''2'')]" "''C''" "''3''" "'' A''" "''1''"
        "''A''" "''B''" "''C''" "''1''" "''2''" "''3''"] h1 h2 h3
    by (simp add: hs Map_delete_def)
qed

text \<open>
  What \<open>set\<close> does on a key that is already present: the keys and their order stay as
  they are (so nothing is evicted and nothing moves), and the key holds the new value.
\<close>

lemma Map_set_present_keys:
  "k \<in> set (map fst m) \<Longrightarrow> map fst (Map_set m k v) = map fst m"
  by (simp add: keys_Map_set)

lemma cache_set_present_in_place:
  assumes "cache_has c key"
  shows "map fst (cache (cache_set c key v)) = map fst (cache c)
       \<and> Map_get (cache (cache_set c key v)) (hash key) = Some v"
proof -
  have "hash key \<in> set (map fst (cache c))"
    using assms by (simp add: cache_has_def Map_has_iff)
  then show ?thesis
    using cache_set_present [OF assms, of v]
    by (simp add: Map_set_present_keys Map_get_def map_of_Map_set)
qed

text \<open>
  Claim C4 at the input \<open>set(a,1); set(b,2); set(a,9); set(c,3)\<close> with the maximum size 2:
  the \<open>set\<close> that rewrites \<open>a\<close> leaves its entry first in the map, so the next
  insertion evicts \<open>a\<close>, the key written last, and keeps \<open>b\<close>.
\<close>

theorem set_update_keeps_position:
  "(let c = set_all (new_CacheManager 2) [(''a'', ''1''), (''b'', ''2''), (''a'', ''9''), (''c'', ''3'')]
    in cache c = [(''b'', ''2''), (''c'', ''3'')] \<and> \<not> cache_has c ''a'' \<and> cache_has c ''b'')"
  by code_simp

text \<open>
  Claim C2 at the input \<open>set(a,1); set(b,2); get(a); set(b,9); set(c,3)\<close> with the maximum
  size 2: the \<open>get\<close> moves \<open>a\<close> behind \<open>b\<close>, the \<open>set\<close> that rewrites \<open>b\<close> leaves it
  first in the map, and the insertion of \<open>c\<close> evicts \<open>b\<close>, the entry used last, where
  the least recently used entry is \<open>a\<close>.
\<close>

theorem eviction_not_least_recently_used:
  "cache (cache_set
            (cache_set
               (snd (cache_get (set_all (new_CacheManager 2) [(''a'', ''1''), (''b'', ''2'')]) ''a''))
               ''b'' ''9'')
            ''c'' ''3'')
     = [(''a'', ''1''), (''c'', ''3'')]
 \<and> \<not> cache_has
       (cache_set
          (cache_set
             (snd (cache_get (set_all (new_CacheManager 2) [(''a'', ''1''), (''b'', ''2'')]) ''a''))
             ''b'' ''9'')
          ''c'' ''3'') ''b''
 \<and> cache_has
       (cache_set
          (cache_set
             (snd (cache_get (set_all (new_CacheManager 2) [(''a'', ''1''), (''b'', ''2'')]) ''a''))
             ''b'' ''9'')
          ''c'' ''3'') ''a''"
  by code_simp

section \<open>Properties of persistence\<close>


lemma cache_set_distinct:
  assumes "distinct (map fst (cache c))"
  shows "distinct (map fst (cache (cache_set c key v)))"
  using assms
  by (simp add: cache_set_def Let_def distinct_Map_set distinct_Map_delete split: option.split)

lemma set_all_distinct:
  assumes "distinct (map fst (cache c))"
  shows "distinct (map fst (cache (set_all c ops)))"
  using assms
proof (induction ops arbitrary: c)
  case Nil
  then show ?case by (simp add: set_all_def)
next
  case (Cons kv ops)
  from Cons.prems have "distinct (map fst (cache (cache_set c (fst kv) (snd kv))))"
    by (rule cache_set_distinct)
  then show ?case using Cons.IH [of "cache_set c (fst kv) (snd kv)"] by (simp add: set_all_def)
qed

lemma cache_get_result: "fst (cache_get c key) = Map_get (cache c) (hash key)"
  by (simp add: cache_get_def Let_def Map_has_def Map_get_def split: option.split)

lemma persist_cache [simp]: "fst (persist P c st) = c"
  by (simp add: persist_def split: sum.split)

text \<open>
  Claim C7. Take the cache \<open>c\<close> left by any sequence of \<open>set\<close> calls, and a platform
  that does its part for this cache: \<open>JSON.stringify\<close> gives a text (never the empty
  one), the storage takes it and hands it back, and \<open>JSON.parse\<close> reads it back as the
  same list of entries. Then \<open>persist\<close> followed by \<open>restore\<close> into a fresh cache of
  any maximum size gives the same ordered list of entries, hence the same size and the
  same result of \<open>get\<close> for every raw key. The counters are those of the fresh cache.
\<close>

theorem persist_restore_roundtrip:
  assumes built: "c = set_all (new_CacheManager n) ops"
    and written: "stringify P (cache c) = Inr blob"
    and nonempty: "blob \<noteq> []"
    and stored: "setItem P st storage_key blob = Inr st'"
    and loaded: "getItem P st' storage_key = Inr (Some blob)"
    and parsed: "parse P blob = Inr (cache c)"
  shows "snd (persist P c st) = st'
       \<and> cache (restore P (new_CacheManager n') st') = cache c
       \<and> cache_size (restore P (new_CacheManager n') st') = cache_size c
       \<and> (\<forall>key. fst (cache_get (restore P (new_CacheManager n') st') key) = fst (cache_get c key))"
proof -
  have "distinct (map fst (cache (new_CacheManager n :: 'a CacheManager)))"
    by (simp add: new_CacheManager_def)
  then have d: "distinct (map fst (cache c))"
    unfolding built by (rule set_all_distinct)
  have p: "snd (persist P c st) = st'"
    using written stored by (simp add: persist_def persist_try_def)
  have "restore P (new_CacheManager n') st' = (new_CacheManager n')\<lparr> cache := Map_new (cache c) \<rparr>"
    using loaded nonempty parsed by (simp add: restore_def restore_try_def)
  then have r: "cache (restore P (new_CacheManager n') st') = cache c"
    using Map_new_distinct [OF d] by simp
  show ?thesis using p r by (simp add: cache_size_def cache_get_result)
qed

theorem persist_restore_roundtrip_witness:
  \<open>snd (persist browser (set_all (new_CacheManager 2) [(''Hi  '', ''Why?''), (''a'', ''b''), (''c'', ''d'')]) Map.empty)
     = [storage_key \<mapsto> ''[["a","b"],["c","d"]]'']
 \<and> cache (restore browser (new_CacheManager 7) [storage_key \<mapsto> ''[["a","b"],["c","d"]]''])
     = [(''a'', ''b''), (''c'', ''d'')]
 \<and> cache_size (restore browser (new_CacheManager 7) [storage_key \<mapsto> ''[["a","b"],["c","d"]]'']) = 2
 \<and> (\<forall>key. fst (cache_get (restore browser (new_CacheManager 7) [storage_key \<mapsto> ''[["a","b"],["c","d"]]'']) key)
        = fst (cache_get (set_all (new_CacheManager 2) [(''Hi  '', ''Why?''), (''a'', ''b''), (''c'', ''d'')]) key))\<close>
proof -
  let ?c = "set_all (new_CacheManager 2) [(''Hi  '', ''Why?''), (''a'', ''b''), (''c'', ''d'')]"
  let ?blob = \<open>''[["a","b"],["c","d"]]''\<close>
  have c: "cache ?c = [(''a'', ''b''), (''c'', ''d'')]"
    by code_simp
  have written: "stringify browser (cache ?c) = Inr ?blob"
    unfolding c by code_simp
  have nonempty: "?blob \<noteq> []"
    by simp
  have stored: "setItem browser Map.empty storage_key ?blob = Inr [storage_key \<mapsto> ?blob]"
    by (simp add: browser_def)
  have loaded: "getItem browser [storage_key \<mapsto> ?blob] storage_key = Inr (Some ?blob)"
    by (simp add: browser_def)
  have parsed: "parse browser ?blob = Inr (cache ?c)"
    unfolding c by code_simp
  show ?thesis
    using persist_restore_roundtrip [OF refl written nonempty stored loaded parsed, of 7]
    by (simp add: c cache_size_def)
qed

subsection \<open>The reference platform reads back what it wrote\<close>


lemma hex_roundtrip: "k < 16 \<Longrightarrow> hex_value (hex_digit k) = Some k"
proof -
  assume "k < 16"
  then have "k = 0 \<or> k = 1 \<or> k = 2 \<or> k = 3 \<or> k = 4 \<or> k = 5 \<or> k = 6 \<or> k = 7
      \<or> k = 8 \<or> k = 9 \<or> k = 10 \<or> k = 11 \<or> k = 12 \<or> k = 13 \<or> k = 14 \<or> k = 15"
    by arith
  then show ?thesis
    by (elim disjE) (simp_all add: hex_digit_def hex_value_def)
qed

lemma hex_digit_mod: "hex_digit n = hex_digit (n mod 16)"
  by (simp add: hex_digit_def)

lemma json_string_body_escape:
  "json_string_body (json_escape c @ rest) = push c (json_string_body rest)"
proof -
  let ?n = "of_char c :: nat"
  consider (quote) \<open>c = CHR ''"''\<close>
    | (backslash) "c = CHR 0x5C"
    | (b) "c = CHR 0x08" | (f) "c = CHR 0x0C" | (n) "c = CHR 0x0A"
    | (r) "c = CHR 0x0D" | (t) "c = CHR 0x09"
    | (control) \<open>c \<noteq> CHR ''"''\<close> "c \<noteq> CHR 0x5C" "c \<noteq> CHR 0x08" "c \<noteq> CHR 0x0C"
        "c \<noteq> CHR 0x0A" "c \<noteq> CHR 0x0D" "c \<noteq> CHR 0x09" "?n < 32"
    | (plain) \<open>c \<noteq> CHR ''"''\<close> "c \<noteq> CHR 0x5C" "\<not> ?n < 32"
    by fastforce
  then show ?thesis
  proof cases
    case control
    have hi: "hex_value (hex_digit (?n div 16)) = Some (?n div 16)"
      using control(8) by (intro hex_roundtrip) simp
    have lo: "hex_value (hex_digit ?n) = Some (?n mod 16)"
      using hex_roundtrip [of "?n mod 16"] hex_digit_mod [of ?n] by simp
    have zero: "hex_value (CHR ''0'') = Some 0" by (simp add: hex_value_def)
    have "char_of (16 * (?n div 16) + ?n mod 16) = c" by simp
    then show ?thesis
      using control by (simp add: json_escape_def hi lo zero)
  qed (simp_all add: json_escape_def json_unescape_def)
qed


lemma json_string_body_quote:
  \<open>json_string_body (concat (map json_escape s) @ CHR ''"'' # rest) = Some (s, rest)\<close>
proof (induction s)
  case Nil
  show ?case by simp
next
  case (Cons c s)
  have \<open>json_string_body (concat (map json_escape (c # s)) @ CHR ''"'' # rest)
      = json_string_body (json_escape c @ (concat (map json_escape s) @ CHR ''"'' # rest))\<close>
    by simp
  also have \<open>\<dots> = push c (json_string_body (concat (map json_escape s) @ CHR ''"'' # rest))\<close>
    by (rule json_string_body_escape)
  finally show ?case by (simp add: Cons.IH push_def)
qed

lemma json_string_quote: "json_string (json_quote s @ rest) = Some (s, rest)"
  using json_string_body_quote [of s rest] by (simp add: json_string_def json_quote_def)

lemma json_parse_entry_entry: "json_parse_entry (json_entry e @ rest) = Some (e, rest)"
proof -
  have "json_entry e @ rest
      = CHR ''['' # (json_quote (fst e) @ (CHR '','' # (json_quote (snd e) @ (CHR '']'' # rest))))"
    by (simp add: json_entry_def)
  then show ?thesis
    by (simp add: json_parse_entry_def json_string_quote)
qed

lemma json_parse_entries_join:
  "es \<noteq> [] \<Longrightarrow> length es \<le> fuel \<Longrightarrow>
   json_parse_entries fuel (json_join (map json_entry es) @ '']'') = Some es"
proof (induction es arbitrary: fuel)
  case Nil
  then show ?case by simp
next
  case (Cons e es)
  then obtain fuel' where fuel: "fuel = Suc fuel'" "length es \<le> fuel'"
    by (cases fuel) auto
  show ?case
  proof (cases es)
    case Nil
    then show ?thesis
      using json_parse_entry_entry [of e "'']''"] fuel by simp
  next
    case (Cons e' es')
    then have "json_join (map json_entry (e # es)) @ '']''
        = json_entry e @ (CHR '','' # (json_join (map json_entry es) @ '']''))"
      by simp
    moreover have "json_parse_entries fuel' (json_join (map json_entry es) @ '']'') = Some es"
      using Cons fuel(2) by (intro Cons.IH) simp_all
    ultimately show ?thesis
      using fuel(1) json_parse_entry_entry [of e "CHR '','' # (json_join (map json_entry es) @ '']'')"]
      by simp
  qed
qed

lemma json_entry_nonempty: "json_entry e \<noteq> []"
  by (simp add: json_entry_def)

lemma length_json_join:
  "\<forall>x \<in> set xs. x \<noteq> [] \<Longrightarrow> length xs \<le> length (json_join xs)"
proof (induction xs rule: json_join.induct)
  case 1
  then show ?case by simp
next
  case (2 x)
  then show ?case by (cases x) simp_all
next
  case (3 x y ys)
  then show ?case by (cases x) simp_all
qed

lemma json_parse_stringify: "json_parse (json_stringify es) = Inr es"
proof (cases es)
  case Nil
  then show ?thesis by (simp add: json_parse_def json_stringify_def)
next
  case (Cons e es')
  let ?body = "json_join (map json_entry es) @ '']''"
  have "length (map json_entry es) \<le> length (json_join (map json_entry es))"
    by (rule length_json_join) (simp add: json_entry_nonempty)
  then have fuel: "length es \<le> length (json_stringify es)"
    by (simp add: json_stringify_def)
  have parsed: "json_parse_entries (length (json_stringify es)) ?body = Some es"
    using Cons fuel by (intro json_parse_entries_join) simp_all
  have "2 \<le> length ?body"
    using Cons \<open>length (map json_entry es) \<le> length (json_join (map json_entry es))\<close> by simp
  then have "?body \<noteq> '']''" by auto
  moreover have "json_stringify es = CHR ''['' # ?body" by (simp add: json_stringify_def)
  ultimately show ?thesis using parsed by (simp add: json_parse_def)
qed

lemma json_stringify_nonempty: "json_stringify es \<noteq> []"
  by (simp add: json_stringify_def)

text \<open>
  The reference platform meets the contract for every cache whose values are strings:
  there \<open>persist\<close> followed by \<open>restore\<close> into a fresh cache gives back the entries of
  any cache that a sequence of \<open>set\<close> calls has built.
\<close>

lemma browser_roundtrip:
  "cache (restore browser (new_CacheManager n')
            (snd (persist browser (set_all (new_CacheManager n) ops) st)))
     = cache (set_all (new_CacheManager n) ops)"
proof -
  let ?c = "set_all (new_CacheManager n) ops :: string CacheManager"
  let ?blob = "json_stringify (cache ?c)"
  have "distinct (map fst (cache (new_CacheManager n :: string CacheManager)))"
    by (simp add: new_CacheManager_def)
  then have d: "distinct (map fst (cache ?c))" by (rule set_all_distinct)
  have p: "snd (persist browser ?c st) = st(storage_key \<mapsto> ?blob)"
    by (simp add: persist_def persist_try_def browser_def)
  have "restore browser (new_CacheManager n') (st(storage_key \<mapsto> ?blob))
      = (new_CacheManager n')\<lparr> cache := Map_new (cache ?c) \<rparr>"
    by (simp add: restore_def restore_try_def browser_def json_stringify_nonempty
        json_parse_stringify)
  then show ?thesis using p Map_new_distinct [OF d] by simp
qed

subsection \<open>Failures\<close>

lemma restore_failure_unchanged:
  "restore_try P c st = Inl e \<Longrightarrow> restore P c st = c"
  by (simp add: restore_def)

lemma persist_failure_unchanged:
  "persist_try P c st = Inl e \<Longrightarrow> persist P c st = (c, st)"
  by (simp add: persist_def)

text \<open>
  Claim C8, as amended. Neither operation can end in an error: \<open>restore\<close> always gives
  a cache and \<open>persist\<close> a cache and a storage. When the body of \<open>restore\<close> throws
  (the storage refuses, the text is not JSON, the parsed value is no list of entries),
  the cache is exactly the one before the call, so a fresh cache stays empty. When the
  body of \<open>persist\<close> throws, cache and storage are unchanged; the cache is unchanged by
  \<open>persist\<close> in any case.
\<close>

theorem persistence_failures_swallowed:
  "(restore_try P c st = Inl e \<longrightarrow> restore P c st = c)
 \<and> (restore_try P (new_CacheManager n) st = Inl e
      \<longrightarrow> cache (restore P (new_CacheManager n) st) = [])
 \<and> (persist_try Q c' st' = Inl e' \<longrightarrow> persist Q c' st' = (c', st'))
 \<and> fst (persist Q c' st') = c'"
  using restore_failure_unchanged [of P c st e]
    restore_failure_unchanged [of P "new_CacheManager n" st e]
    persist_failure_unchanged [of Q c' st' e']
  by (simp add: new_CacheManager_def)

theorem persistence_failures_swallowed_witness:
  "restore browser (cache_set (new_CacheManager 50) ''hello'' ''Hi?'') [storage_key \<mapsto> ''{oops'']
     = cache_set (new_CacheManager 50) ''hello'' ''Hi?''
 \<and> cache (restore browser (new_CacheManager 50) [storage_key \<mapsto> ''{oops'']) = []
 \<and> persist blocked (cache_set (new_CacheManager 50) ''hello'' ''Hi?'') Map.empty
     = (cache_set (new_CacheManager 50) ''hello'' ''Hi?'', Map.empty)
 \<and> fst (persist blocked (cache_set (new_CacheManager 50) ''hello'' ''Hi?'') Map.empty)
     = cache_set (new_CacheManager 50) ''hello'' ''Hi?''"
proof -
  let ?c = "cache_set (new_CacheManager 50) ''hello'' ''Hi?'' :: string CacheManager"
  let ?st = "[storage_key \<mapsto> ''{oops'']"
  have bad: "json_parse ''{oops'' = Inl (Error ''SyntaxError'')"
    by code_simp
  have r1: "restore_try browser ?c ?st = Inl (Error ''SyntaxError'')"
    by (simp add: restore_try_def browser_def bad)
  have r2: "restore_try browser (new_CacheManager 50) ?st = Inl (Error ''SyntaxError'')"
    by (simp add: restore_try_def browser_def bad)
  have p: "persist_try blocked ?c Map.empty = Inl (Error ''SecurityError'')"
    by (simp add: persist_try_def blocked_def)
  show ?thesis
    using persistence_failures_swallowed
      [of browser ?c ?st "Error ''SyntaxError''" 50 blocked ?c Map.empty "Error ''SecurityError''"]
      r1 r2 p
    by simp
qed

text \<open>
  Claim C8 as stated fails where it says that a failed \<open>restore\<close> leaves the cache empty:
  with one entry in the cache and a stored text that is not JSON, \<open>restore\<close> fails and
  the entry is still there.
\<close>

theorem restore_failure_not_empty_counterexample:
  "restore_try browser (cache_set (new_CacheManager 50) ''hello'' ''Hi?'')
       [storage_key \<mapsto> ''{oops''] = Inl (Error ''SyntaxError'')
 \<and> cache (restore browser (cache_set (new_CacheManager 50) ''hello'' ''Hi?'')
       [storage_key \<mapsto> ''{oops'']) = [(''hello'', ''Hi?'')]"
proof -
  let ?c = "cache_set (new_CacheManager 50) ''hello'' ''Hi?'' :: string CacheManager"
  have bad: "json_parse ''{oops'' = Inl (Error ''SyntaxError'')"
    by code_simp
  have r: "restore_try browser ?c [storage_key \<mapsto> ''{oops''] = Inl (Error ''SyntaxError'')"
    by (simp add: restore_try_def browser_def bad)
  have c: "cache ?c = [(''hello'', ''Hi?'')]"
    by code_simp
  show ?thesis using r c by (simp add: restore_def)
qed

section \<open>Properties of the validation gate\<close>


declare bit_length.simps [simp del]

lemma bit_length_le: "n < 2 ^ k \<Longrightarrow> bit_length n \<le> k"
proof (induction k arbitrary: n)
  case 0
  then have "n = 0" by simp
  then show ?case by (simp add: bit_length.simps [of 0])
next
  case (Suc k)
  have "n div 2 < 2 ^ k" using Suc.prems by simp
  then have "bit_length (n div 2) \<le> k" by (rule Suc.IH)
  then show ?case by (simp add: bit_length.simps [of n])
qed

lemma round_to_double_close:
  assumes "x < 2 ^ 85"
  shows "x \<le> round_to_double x + 2 ^ 31 \<and> round_to_double x \<le> x + 2 ^ 31"
proof (cases "bit_length x \<le> 53")
  case True
  then show ?thesis by (simp add: round_to_double_def)
next
  case False
  define s where "s = bit_length x - 53"
  define h :: nat where "h = 2 ^ (s - Suc 0)"
  have "bit_length x \<le> 85" using assms by (rule bit_length_le)
  then have s: "1 \<le> s" "s \<le> 32" using False by (simp_all add: s_def)
  have pow: "(2::nat) ^ s = 2 * h"
    using s(1) by (simp add: h_def power_eq_if)
  have "s - Suc 0 \<le> 31" using s by simp
  then have "(2::nat) ^ (s - Suc 0) \<le> 2 ^ 31" by (rule power_increasing) simp
  then have hb: "h \<le> 2 ^ 31" by (simp add: h_def)
  define q where "q = x div (2 * h)"
  define r where "r = x mod (2 * h)"
  have x: "x = q * (2 * h) + r"
    unfolding q_def r_def by (rule div_mult_mod_eq [symmetric])
  have hpos: "0 < h" by (simp add: h_def)
  then have r: "r < 2 * h" by (simp add: r_def)
  have eq: "round_to_double x =
      (if r > h \<or> (r = h \<and> odd q) then (q + 1) * (2 * h) else q * (2 * h))"
    using False by (simp add: round_to_double_def Let_def s_def [symmetric] pow q_def r_def h_def [symmetric])
  show ?thesis
  proof (cases "r > h \<or> (r = h \<and> odd q)")
    case True
    then have "round_to_double x = q * (2 * h) + 2 * h" using eq by auto
    then show ?thesis using x r True hb by linarith
  next
    case False
    then have "round_to_double x = q * (2 * h)" using eq by auto
    moreover have "r \<le> h" using False by auto
    ultimately show ?thesis using x hb by linarith
  qed
qed

lemma double_0_7_tenfold: "10 * double_0_7 + 4 = 7 * 2 ^ 53"
  by (simp add: double_0_7_def)

lemma times_0_7_close:
  assumes "n < 2 ^ 32"
  shows "n * double_0_7 \<le> times_0_7 n + 2 ^ 31 \<and> times_0_7 n \<le> n * double_0_7 + 2 ^ 31"
proof -
  have "double_0_7 < 2 ^ 53" by (simp add: double_0_7_def)
  then have "n * double_0_7 < 2 ^ 32 * 2 ^ 53"
    using assms by (intro mult_strict_mono) simp_all
  then have "n * double_0_7 < 2 ^ 85" by simp
  then show ?thesis unfolding times_0_7_def by (rule round_to_double_close)
qed

lemma exceeds_above:
  assumes n: "n < 2 ^ 32" and gt: "7 * n < 10 * k"
  shows "exceeds_times_0_7 k n"
proof -
  define A where "A = n * double_0_7"
  have c: "times_0_7 n \<le> A + 2147483648"
    using times_0_7_close [OF n] by (simp add: A_def)
  have e: "10 * A + 4 * n = 63050394783186944 * n"
    by (simp add: A_def double_0_7_def)
  have "times_0_7 n < k * 9007199254740992"
    using c e gt by linarith
  then show ?thesis by (simp add: exceeds_times_0_7_def)
qed

lemma exceeds_below:
  assumes n: "n < 2 ^ 32" and lt: "10 * k < 7 * n"
  shows "\<not> exceeds_times_0_7 k n"
proof -
  define A where "A = n * double_0_7"
  have c: "A \<le> times_0_7 n + 2147483648"
    using times_0_7_close [OF n] by (simp add: A_def)
  have e: "10 * A + 4 * n = 63050394783186944 * n"
    by (simp add: A_def double_0_7_def)
  have n': "n < 4294967296" using n by simp
  have "k * 9007199254740992 \<le> times_0_7 n"
    using c e lt n' by linarith
  then show ?thesis by (simp add: exceeds_times_0_7_def)
qed

text \<open>
  At equality the double product decides: \<open>10 * 0.7\<close> is 7, and \<open>90 * 0.7\<close> is the
  double just below 63.
\<close>

lemma exceeds_boundary: "\<not> exceeds_times_0_7 7 10" "exceeds_times_0_7 63 90"
  by (simp_all add: exceeds_times_0_7_def times_0_7_def round_to_double_def double_0_7_def
      Let_def bit_length.simps)


lemma validateResponse_eq:
  "validateResponse r u =
     (passes_other_gates r \<and> \<not> exceeds_times_0_7 (overlap r u) (length (userWords u)))"
  by (auto simp add: validateResponse_def passes_other_gates_def Let_def)

lemma overlap_le_qualifying:
  "overlap r u \<le> length (filter (\<lambda>word. length word > 4) (userWords u))"
proof -
  have "filter (\<lambda>word. length word > 4 \<and> List.member (responseWords r) word) (userWords u)
      = filter (\<lambda>word. List.member (responseWords r) word)
          (filter (\<lambda>word. length word > 4) (userWords u))"
    by (simp add: conj_commute)
  then show ?thesis by (simp add: overlap_def del: filter_filter)
qed

lemma userWords_example:
  "userWords ''I have five years of experience in backend systems''
     = [''i'', ''have'', ''five'', ''years'', ''of'', ''experience'', ''in'', ''backend'', ''systems'']"
  by code_simp

lemma overlap_example_le: "overlap r ''I have five years of experience in backend systems'' \<le> 4"
  using overlap_le_qualifying [of r "''I have five years of experience in backend systems''"]
  by (simp add: userWords_example)

text \<open>
  What the overlap test does. The overlap is the number of the utterance's words (lower
  case, split at single spaces, counted with repetition) that are longer than 4
  characters and are among the candidate's words. For an utterance of fewer than
  \<open>2^32\<close> words (no array is longer): when the overlap is more than 0.7 times the
  number of all the utterance's words, the gate rejects; when it is less, the gate
  accepts exactly the candidates that pass the three other criteria. (At equality the
  rounding of the double product decides.) The utterance "I have five years of
  experience in backend systems" has 9 words, 4 of them longer than 4 characters, so
  the test rejects no candidate for it.
\<close>

lemma validateResponse_overlap_gate:
  assumes "length (userWords u) < 2 ^ 32"
  shows "(7 * length (userWords u) < 10 * overlap r u \<longrightarrow> \<not> validateResponse r u)
       \<and> (10 * overlap r u < 7 * length (userWords u)
            \<longrightarrow> validateResponse r u = passes_other_gates r)
       \<and> validateResponse r' ''I have five years of experience in backend systems''
            = passes_other_gates r'"
proof (intro conjI impI)
  assume "7 * length (userWords u) < 10 * overlap r u"
  then have "exceeds_times_0_7 (overlap r u) (length (userWords u))"
    using assms by (intro exceeds_above)
  then show "\<not> validateResponse r u" by (simp add: validateResponse_eq)
next
  assume "10 * overlap r u < 7 * length (userWords u)"
  then have "\<not> exceeds_times_0_7 (overlap r u) (length (userWords u))"
    using assms by (intro exceeds_below)
  then show "validateResponse r u = passes_other_gates r" by (simp add: validateResponse_eq)
next
  let ?u = "''I have five years of experience in backend systems''"
  have n: "length (userWords ?u) = 9" by (simp add: userWords_example)
  have "10 * overlap r' ?u < 7 * length (userWords ?u)"
    using overlap_example_le [of r'] n by simp
  moreover have "length (userWords ?u) < 2 ^ 32" using n by simp
  ultimately have "\<not> exceeds_times_0_7 (overlap r' ?u) (length (userWords ?u))"
    by (intro exceeds_below)
  then show "validateResponse r' ?u = passes_other_gates r'" by (simp add: validateResponse_eq)
qed

lemma validateResponse_overlap_gate_example:
  "\<not> validateResponse ''system design system design?'' ''system design''
 \<and> validateResponse ''Which system do you design?'' ''I like system design a lot''
 \<and> validateResponse ''years experience backend systems ok?''
      ''I have five years of experience in backend systems''"
proof -
  have w1: "length (userWords ''system design'') = 2" by code_simp
  have o1: "overlap ''system design system design?'' ''system design'' = 2" by code_simp
  have w2: "length (userWords ''I like system design a lot'') = 6" by code_simp
  have o2: "overlap ''Which system do you design?'' ''I like system design a lot'' = 1"
    by code_simp
  have n1: "length (userWords ''system design'') < 2 ^ 32" by (simp add: w1)
  have h1: "7 * length (userWords ''system design'')
              < 10 * overlap ''system design system design?'' ''system design''"
    by (simp add: w1 o1)
  have n2: "length (userWords ''I like system design a lot'') < 2 ^ 32" by (simp add: w2)
  have h2: "10 * overlap ''Which system do you design?'' ''I like system design a lot''
              < 7 * length (userWords ''I like system design a lot'')"
    by (simp add: w2 o2)
  have p2: "passes_other_gates ''Which system do you design?''" by code_simp
  have p3: "passes_other_gates ''years experience backend systems ok?''" by code_simp
  show ?thesis
    using validateResponse_overlap_gate [OF n1, of "''system design system design?''"]
      validateResponse_overlap_gate [OF n2, of "''Which system do you design?''"
        "''years experience backend systems ok?''"]
      h1 h2 p2 p3
    by blast
qed

text \<open>
  Claim C1 at the utterance "I have five years of experience in backend systems". The
  first candidate repeats all four of its words longer than 4 characters; the second is
  the utterance itself with a question mark, which repeats three of the four (the last
  word becomes \<open>systems?\<close>). For both the overlap, taken as a fraction of the
  utterance's words longer than 4 characters, exceeds 0.7, and the gate accepts both:
  it compares the overlap with 0.7 times the number of all nine words.
\<close>

theorem validateResponse_accepts_repetition:
  "spec_overlap_exceeds ''years experience backend systems ok?''
      ''I have five years of experience in backend systems''
 \<and> validateResponse ''years experience backend systems ok?''
      ''I have five years of experience in backend systems''
 \<and> spec_overlap_exceeds ''I have five years of experience in backend systems?''
      ''I have five years of experience in backend systems''
 \<and> validateResponse ''I have five years of experience in backend systems?''
      ''I have five years of experience in backend systems''"
proof -
  let ?r = "''years experience backend systems ok?''"
  let ?echo = "''I have five years of experience in backend systems?''"
  let ?u = "''I have five years of experience in backend systems''"
  have s: "spec_overlap_exceeds ?r ?u" "spec_overlap_exceeds ?echo ?u"
    by code_simp+
  have p: "passes_other_gates ?r" "passes_other_gates ?echo"
    by code_simp+
  have o: "overlap ?r ?u = 4" "overlap ?echo ?u = 3"
    by code_simp+
  have n: "length (userWords ?u) = 9"
    by (simp add: userWords_example)
  have "\<not> exceeds_times_0_7 4 9" "\<not> exceeds_times_0_7 3 9"
    by (simp_all add: exceeds_times_0_7_def times_0_7_def round_to_double_def double_0_7_def
        Let_def bit_length.simps)
  then have "validateResponse ?r ?u" "validateResponse ?echo ?u"
    by (simp_all add: validateResponse_eq p o n)
  then show ?thesis using s by simp
qed

section \<open>Properties of the response generator\<close>

declare retry_loop.simps [simp del]

subsection \<open>Cleaning never adds a character\<close>

lemma str_includes_single: "str_includes s [c] \<longleftrightarrow> c \<in> set s"
  by (induction s) auto

lemma set_trimStart: "set (trimStart s) \<subseteq> set s"
  by (auto simp: trimStart_def dest: set_dropWhileD)

lemma set_trimEnd: "set (trimEnd s) \<subseteq> set s"
  by (auto simp: trimEnd_def dest: set_dropWhileD)

lemma set_trim: "set (trim s) \<subseteq> set s"
  using set_trimEnd [of "trimStart s"] set_trimStart [of s] by (auto simp: trim_def)

lemma set_stripRoleLabel: "set (stripRoleLabel s) \<subseteq> set s"
  by (auto simp: stripRoleLabel_def split: list.splits dest!: set_dropWhileD in_set_dropD)

lemma set_stripLeadingQuote: "set (stripLeadingQuote s) \<subseteq> set s"
  by (auto simp: stripLeadingQuote_def split: list.splits dest!: set_dropWhileD)

lemma set_stripTrailingQuote: "set (stripTrailingQuote s) \<subseteq> set s"
  using set_trimEnd [of "butlast s"]
  by (auto simp: stripTrailingQuote_def dest: in_set_butlastD)

lemma set_substring0: "set (substring0 s n) \<subseteq> set s"
  by (simp add: substring0_def set_take_subset)

lemma set_dropIncompleteSentence: "set (dropIncompleteSentence s) \<subseteq> set s"
  using set_substring0 [of s] by (auto simp: dropIncompleteSentence_def Let_def)

lemma set_cutAfterLastQuestion: "set (cutAfterLastQuestion s) \<subseteq> set s"
  using set_substring0 [of s] by (auto simp: cutAfterLastQuestion_def Let_def)

lemma set_cleanResponse: "set (cleanResponse s) \<subseteq> set s"
proof -
  let ?a = "trim (stripTrailingQuote (stripLeadingQuote (stripRoleLabel s)))"
  have "set ?a \<subseteq> set s"
    using set_trim [of "stripTrailingQuote (stripLeadingQuote (stripRoleLabel s))"]
      set_stripTrailingQuote [of "stripLeadingQuote (stripRoleLabel s)"]
      set_stripLeadingQuote [of "stripRoleLabel s"] set_stripRoleLabel [of s]
    by blast
  moreover have "set (cleanResponse s) \<subseteq> set ?a"
    using set_cutAfterLastQuestion [of "dropIncompleteSentence ?a"]
      set_dropIncompleteSentence [of ?a]
    by (auto simp: cleanResponse_def Let_def)
  ultimately show ?thesis by blast
qed

lemma no_question_rejected:
  assumes "\<not> str_includes generated ''?''"
  shows "\<not> validateResponse (cleanResponse (trim generated)) userMessage"
proof -
  have "CHR ''?'' \<notin> set generated" using assms by (simp add: str_includes_single)
  then have "CHR ''?'' \<notin> set (cleanResponse (trim generated))"
    using set_cleanResponse [of "trim generated"] set_trim [of generated] by blast
  then have "\<not> str_includes (cleanResponse (trim generated)) ''?''"
    by (simp add: str_includes_single)
  then show ?thesis by (simp add: validateResponse_eq passes_other_gates_def)
qed

subsection \<open>The model must be loaded\<close>

text \<open>
  Claim C10. Without a loaded model, \<open>generateResponse\<close> throws the error "Model not
  loaded", and the whole state of the client (history, pipeline, flags) is the one before
  the call.
\<close>

theorem generate_requires_loaded_model:
  assumes "\<not> isModelLoaded s"
  shows "generateResponse run rnd s userMessage
           = (Inl (Error ''Model not loaded. Call initialize() first.''), s)"
  using assms by (simp add: generateResponse_def)

theorem generate_requires_loaded_model_witness:
  "\<not> isModelLoaded \<lparr> conversationHistory = [\<lparr> role = User, content = ''hi'' \<rparr>],
                       systemPrompt = ''You are a professional job interviewer.'',
                       pipeline = (), isModelLoaded = False \<rparr>
 \<and> generateResponse (stub_pipeline ''What is a closure?'') rnd0
       \<lparr> conversationHistory = [\<lparr> role = User, content = ''hi'' \<rparr>],
         systemPrompt = ''You are a professional job interviewer.'',
         pipeline = (), isModelLoaded = False \<rparr> ''hello''
     = (Inl (Error ''Model not loaded. Call initialize() first.''),
        \<lparr> conversationHistory = [\<lparr> role = User, content = ''hi'' \<rparr>],
          systemPrompt = ''You are a professional job interviewer.'',
          pipeline = (), isModelLoaded = False \<rparr>)"
proof -
  let ?s = "\<lparr> conversationHistory = [\<lparr> role = User, content = ''hi'' \<rparr>],
             systemPrompt = ''You are a professional job interviewer.'',
             pipeline = (), isModelLoaded = False \<rparr>"
  have off: "\<not> isModelLoaded ?s" by simp
  show ?thesis
    using generate_requires_loaded_model
      [OF off, of "stub_pipeline ''What is a closure?''" rnd0 "''hello''"]
    by simp
qed

subsection \<open>The two entries a call appends\<close>

text \<open>
  Claim C9. After a call of \<open>generateResponse\<close> that returns a response, the history is
  the history before the call followed by exactly two entries: the user's utterance,
  then the returned response in the assistant's role.
\<close>

theorem history_append_order:
  assumes "generateResponse run rnd s userMessage = (Inr response, s')"
  shows "getHistory s' = getHistory s @ [\<lparr> role = User, content = userMessage \<rparr>,
                                        \<lparr> role = Assistant, content = response \<rparr>]"
  using assms
  by (auto simp: generateResponse_def getHistory_def Let_def split: if_splits prod.splits)

lemma closure_question_clean:
  "cleanResponse (trim ''What is a closure in JavaScript?'') = ''What is a closure in JavaScript?''"
  by code_simp

lemma closure_question_valid:
  "validateResponse (cleanResponse (trim ''What is a closure in JavaScript?''))
     ''I write JavaScript every day''"
proof -
  let ?r = "''What is a closure in JavaScript?''"
  let ?u = "''I write JavaScript every day''"
  note clean = closure_question_clean
  have p: "passes_other_gates ?r" by code_simp
  have o: "overlap ?r ?u = 0" by code_simp
  have n: "length (userWords ?u) = 5" by code_simp
  have "\<not> exceeds_times_0_7 0 5" by (rule exceeds_below) simp_all
  then show ?thesis by (simp add: clean validateResponse_eq p o n)
qed

theorem history_append_order_witness:
  "generateResponse (stub_pipeline ''What is a closure in JavaScript?'') rnd0
       \<lparr> conversationHistory = [], systemPrompt = ''You are a professional job interviewer.'',
         pipeline = (), isModelLoaded = True \<rparr> ''I write JavaScript every day''
     = (Inr ''What is a closure in JavaScript?'',
        \<lparr> conversationHistory =
            [\<lparr> role = User, content = ''I write JavaScript every day'' \<rparr>,
             \<lparr> role = Assistant, content = ''What is a closure in JavaScript?'' \<rparr>],
          systemPrompt = ''You are a professional job interviewer.'',
          pipeline = (), isModelLoaded = True \<rparr>)
 \<and> getHistory
       \<lparr> conversationHistory =
           [\<lparr> role = User, content = ''I write JavaScript every day'' \<rparr>,
            \<lparr> role = Assistant, content = ''What is a closure in JavaScript?'' \<rparr>],
         systemPrompt = ''You are a professional job interviewer.'',
         pipeline = (), isModelLoaded = True \<rparr>
     = getHistory \<lparr> conversationHistory = [],
                    systemPrompt = ''You are a professional job interviewer.'',
                    pipeline = (), isModelLoaded = True \<rparr>
       @ [\<lparr> role = User, content = ''I write JavaScript every day'' \<rparr>,
          \<lparr> role = Assistant, content = ''What is a closure in JavaScript?'' \<rparr>]"
proof -
  let ?run = "stub_pipeline ''What is a closure in JavaScript?''"
  let ?u = "''I write JavaScript every day''"
  let ?s = "\<lparr> conversationHistory = [], systemPrompt = ''You are a professional job interviewer.'',
             pipeline = (), isModelLoaded = True \<rparr>"
  have loop: "retry_loop ?run [\<lparr> role = User, content = ?u \<rparr>] ?u 3 0 double_0_8 ()
      = (Some ''What is a closure in JavaScript?'', ())"
    using closure_question_valid
    by (subst retry_loop.simps) (simp add: stub_pipeline_def Let_def closure_question_clean)
  have gw: "generateWithRetry ?run rnd0 [\<lparr> role = User, content = ?u \<rparr>] ?u 3 ()
      = (''What is a closure in JavaScript?'', ())"
    unfolding generateWithRetry_def loop by simp
  have ev: "generateResponse ?run rnd0 ?s ?u
      = (Inr ''What is a closure in JavaScript?'',
         \<lparr> conversationHistory =
             [\<lparr> role = User, content = ?u \<rparr>,
              \<lparr> role = Assistant, content = ''What is a closure in JavaScript?'' \<rparr>],
           systemPrompt = ''You are a professional job interviewer.'',
           pipeline = (), isModelLoaded = True \<rparr>)"
    by (simp add: generateResponse_def gw Let_def)
  show ?thesis using history_append_order [OF ev] ev by simp
qed

subsection \<open>Attempts and temperatures\<close>

lemma recorded_apply:
  "run p prompt opts = (out, p') \<Longrightarrow>
   recorded run (seen, p) prompt opts =
     (out, (seen @ [\<lparr> call_prompt = prompt, call_options = opts, call_outcome = out \<rparr>], p'))"
  by (simp add: recorded_def)

lemma retry_loop_recorded:
  "retry_loop (recorded run) history userMessage maxRetries attempt t (seen, p) = (res, (seen', p'))
   \<Longrightarrow> \<exists>calls. seen' = seen @ calls
        \<and> length calls \<le> maxRetries - attempt
        \<and> (res = None \<longrightarrow> length calls = maxRetries - attempt)
        \<and> map (\<lambda>c. temperature (call_options c)) calls
            = temperatures_after t (map call_outcome calls)"
proof (induction "maxRetries - attempt" arbitrary: attempt t seen p)
  case 0
  then have ge: "\<not> attempt < maxRetries" by simp
  then have "retry_loop (recorded run) history userMessage maxRetries attempt t (seen, p) = (None, (seen, p))"
    by (subst retry_loop.simps) simp
  then show ?case using "0.prems" ge by simp
next
  case (Suc d)
  then have lt: "attempt < maxRetries" and d: "d = maxRetries - Suc attempt" by simp_all
  let ?prompt = "buildContextualPrompt history userMessage"
  obtain out p1 where run: "run p ?prompt (gen_options_for t) = (out, p1)"
    by (cases "run p ?prompt (gen_options_for t)")
  let ?c = "\<lparr> call_prompt = ?prompt, call_options = gen_options_for t, call_outcome = out \<rparr>"
  have rec: "recorded run (seen, p) ?prompt (gen_options_for t) = (out, (seen @ [?c], p1))"
    using run by (rule recorded_apply)
  show ?case
  proof (cases out)
    case (Inl e)
    have "retry_loop (recorded run) history userMessage maxRetries attempt t (seen, p)
        = retry_loop (recorded run) history userMessage maxRetries (Suc attempt) t (seen @ [?c], p1)"
      using lt rec Inl by (subst retry_loop.simps) (simp add: Let_def)
    then have "retry_loop (recorded run) history userMessage maxRetries (Suc attempt) t (seen @ [?c], p1)
        = (res, (seen', p'))"
      using Suc.prems by simp
    from Suc.hyps(1) [OF d this] obtain calls where
      c: "seen' = (seen @ [?c]) @ calls" "length calls \<le> maxRetries - Suc attempt"
        "res = None \<longrightarrow> length calls = maxRetries - Suc attempt"
        "map (\<lambda>c. temperature (call_options c)) calls = temperatures_after t (map call_outcome calls)"
      by blast
    show ?thesis
      using c lt Inl by (intro exI [of _ "?c # calls"]) (auto simp: gen_options_for_def)
  next
    case (Inr generated)
    show ?thesis
    proof (cases "validateResponse (cleanResponse (trim generated)) userMessage")
      case True
      have "retry_loop (recorded run) history userMessage maxRetries attempt t (seen, p)
          = (Some (cleanResponse (trim generated)), (seen @ [?c], p1))"
        using lt rec Inr True by (subst retry_loop.simps) (simp add: Let_def)
      then have "res = Some (cleanResponse (trim generated))" "seen' = seen @ [?c]"
        using Suc.prems by simp_all
      then show ?thesis
        using lt Inr by (intro exI [of _ "[?c]"]) (auto simp: gen_options_for_def)
    next
      case False
      have "retry_loop (recorded run) history userMessage maxRetries attempt t (seen, p)
          = retry_loop (recorded run) history userMessage maxRetries (Suc attempt) (double_add t double_0_15)
              (seen @ [?c], p1)"
        using lt rec Inr False by (subst retry_loop.simps) (simp add: Let_def)
      then have "retry_loop (recorded run) history userMessage maxRetries (Suc attempt) (double_add t double_0_15)
          (seen @ [?c], p1) = (res, (seen', p'))"
        using Suc.prems by simp
      from Suc.hyps(1) [OF d this] obtain calls where
        c: "seen' = (seen @ [?c]) @ calls" "length calls \<le> maxRetries - Suc attempt"
          "res = None \<longrightarrow> length calls = maxRetries - Suc attempt"
          "map (\<lambda>c. temperature (call_options c)) calls
             = temperatures_after (double_add t double_0_15) (map call_outcome calls)"
        by blast
      show ?thesis
        using c lt Inr by (intro exI [of _ "?c # calls"]) (auto simp: gen_options_for_def)
    qed
  qed
qed

lemma temperatures_after_length [simp]: "length (temperatures_after t outs) = length outs"
  by (induction t outs rule: temperatures_after.induct) simp_all

lemma returned_outcome_simps [simp]:
  "returned_outcome (Inr generated) = True" "returned_outcome (Inl e) = False"
  by (simp_all add: returned_outcome_def)

lemma temperatures_after_nth:
  "k < length outs \<Longrightarrow>
   temperatures_after t outs ! k
     = ((\<lambda>t. double_add t double_0_15) ^^ length (filter returned_outcome (take k outs))) t"
proof (induction t outs arbitrary: k rule: temperatures_after.induct)
  case (1 t)
  then show ?case by simp
next
  case (2 t e outs)
  then show ?case by (cases k) simp_all
next
  case (3 t generated outs)
  show ?case
  proof (cases k)
    case 0
    then show ?thesis by simp
  next
    case (Suc k')
    then have "k' < length outs" using "3.prems" by simp
    then have "temperatures_after (double_add t double_0_15) outs ! k'
        = ((\<lambda>t. double_add t double_0_15) ^^ length (filter returned_outcome (take k' outs)))
            (double_add t double_0_15)"
      by (rule "3.IH")
    then show ?thesis
      using Suc funpow_swap1 [of "\<lambda>t. double_add t double_0_15"
          "length (filter returned_outcome (take k' outs))" t]
      by simp
  qed
qed

lemma filter_returned_outcome:
  "length (filter returned_outcome (take k (map call_outcome calls)))
     = length (filter returned (take k calls))"
proof -
  have "returned = (\<lambda>c. returned_outcome (call_outcome c))"
    by (simp add: fun_eq_iff returned_def returned_outcome_def)
  then have "filter returned_outcome (map call_outcome (take k calls))
      = map call_outcome (filter returned (take k calls))"
    by (simp add: filter_map comp_def)
  then show ?thesis by (simp add: take_map)
qed

lemma all_returned_count:
  "list_all returned calls \<Longrightarrow> length (filter returned (take k calls)) = min k (length calls)"
proof -
  assume "list_all returned calls"
  then have "\<forall>c \<in> set (take k calls). returned c"
    by (auto simp: list_all_iff dest: in_set_takeD)
  then have "filter returned (take k calls) = take k calls" by (simp add: filter_id_conv)
  then show ?thesis by (simp add: min.commute)
qed

lemma double_add_0_8_0_15: "double_add double_0_8 double_0_15 = Double 34227357168015772"
  by (simp add: double_0_8_def double_0_15_def round_to_double_def Let_def bit_length.simps)

lemma double_add_twice: "double_add (Double 34227357168015772) double_0_15 = Double 39631676720860368"
  by (simp add: double_0_15_def round_to_double_def Let_def bit_length.simps)

lemma raised_0: "raised 0 = double_0_8"
  by (simp add: raised_def)

lemma raised_Suc: "raised (Suc j) = double_add (raised j) double_0_15"
  by (simp add: raised_def)

lemma raised_1: "raised 1 = Double 34227357168015772"
  using raised_Suc [of 0] by (simp add: raised_0 double_add_0_8_0_15)

lemma raised_2: "raised 2 = Double 39631676720860368"
proof -
  have "raised (Suc (Suc 0)) = double_add (raised (Suc 0)) double_0_15" by (rule raised_Suc)
  also have "raised (Suc 0) = Double 34227357168015772" using raised_1 by simp
  finally show ?thesis by (simp add: double_add_twice numeral_2_eq_2)
qed

lemma raised_double_values:
  "double_value (raised 0) = 28823037615171176 / 2 ^ 55"
  "double_value (raised 1) = 34227357168015772 / 2 ^ 55"
  "double_value (raised 2) = 39631676720860368 / 2 ^ 55"
  unfolding raised_0 raised_1 raised_2 double_0_8_def double_value_def by simp_all

text \<open>
  Claim C6, as amended. In one call the capability is invoked at most \<open>maxRetries\<close>
  times, and the temperature it gets on attempt \<open>k\<close> (from 0) is the double \<open>0.8\<close> after
  one addition of the double \<open>0.15\<close> for each earlier attempt on which the capability
  returned a text (which then failed the gate, or the call would have ended there). An
  attempt on which the capability throws uses up an attempt and leaves the temperature
  as it is. When no attempt throws, attempt \<open>k\<close> is made after \<open>k\<close> additions. The
  additions are those of doubles: after none, one and two of them the temperature is
  \<open>0.8\<close>, \<open>0.9500000000000001\<close> and \<open>1.1\<close>, that is the doubles
  \<open>28823037615171176 / 2^55\<close>, \<open>34227357168015772 / 2^55\<close> and
  \<open>39631676720860368 / 2^55\<close>.
\<close>

theorem retry_temperature_schedule:
  assumes "generateWithRetry (recorded run) rnd history userMessage maxRetries (seen, p)
             = (response, (seen', p'))"
  shows "(\<exists>calls. seen' = seen @ calls \<and> length calls \<le> maxRetries
          \<and> (\<forall>k < length calls.
                temperature (call_options (calls ! k))
                  = raised (length (filter returned (take k calls))))
          \<and> (list_all returned calls \<longrightarrow>
               (\<forall>k < length calls. temperature (call_options (calls ! k)) = raised k)))
       \<and> double_value (raised 0) = 28823037615171176 / 2 ^ 55
       \<and> double_value (raised 1) = 34227357168015772 / 2 ^ 55
       \<and> double_value (raised 2) = 39631676720860368 / 2 ^ 55"
proof -
  obtain res where loop:
    "retry_loop (recorded run) history userMessage maxRetries 0 double_0_8 (seen, p)
      = (res, (seen', p'))"
    using assms by (auto simp: generateWithRetry_def split: prod.splits option.splits)
  from retry_loop_recorded [OF loop] obtain calls where
    c: "seen' = seen @ calls" "length calls \<le> maxRetries"
      "map (\<lambda>c. temperature (call_options c)) calls
         = temperatures_after double_0_8 (map call_outcome calls)"
    by auto
  have t: "temperature (call_options (calls ! k))
      = raised (length (filter returned (take k calls)))" if "k < length calls" for k
  proof -
    have "temperature (call_options (calls ! k)) = map (\<lambda>c. temperature (call_options c)) calls ! k"
      using that by simp
    also have "\<dots> = temperatures_after double_0_8 (map call_outcome calls) ! k"
      by (simp only: c(3))
    also have "\<dots> = raised (length (filter returned_outcome (take k (map call_outcome calls))))"
      unfolding raised_def using that by (intro temperatures_after_nth) simp
    finally show ?thesis by (simp only: filter_returned_outcome)
  qed
  have "temperature (call_options (calls ! k)) = raised k"
    if "list_all returned calls" "k < length calls" for k
    using t [OF that(2)] all_returned_count [OF that(1), of k] that(2) by simp
  then have "\<exists>calls. seen' = seen @ calls \<and> length calls \<le> maxRetries
          \<and> (\<forall>k < length calls.
                temperature (call_options (calls ! k))
                  = raised (length (filter returned (take k calls))))
          \<and> (list_all returned calls \<longrightarrow>
               (\<forall>k < length calls. temperature (call_options (calls ! k)) = raised k))"
    using c(1,2) t by blast
  then show ?thesis using raised_double_values by blast
qed

lemma tell_me_more_no_question: "\<not> str_includes ''Tell me more'' ''?''"
  by (simp add: str_includes_single)

lemma flaky_run:
  "generateWithRetry (recorded flaky_pipeline) rnd0 [] ''hello'' 3 ([], 0)
     = (getFallbackQuestion rnd0 ''hello'',
        ([\<lparr> call_prompt = buildContextualPrompt [] ''hello'',
            call_options = gen_options_for double_0_8,
            call_outcome = Inl (Error ''network'') \<rparr>,
          \<lparr> call_prompt = buildContextualPrompt [] ''hello'',
            call_options = gen_options_for double_0_8,
            call_outcome = Inr ''Tell me more'' \<rparr>,
          \<lparr> call_prompt = buildContextualPrompt [] ''hello'',
            call_options = gen_options_for (double_add double_0_8 double_0_15),
            call_outcome = Inr ''Tell me more'' \<rparr>],
         3))"
  using no_question_rejected [OF tell_me_more_no_question, of "''hello''"]
  by (simp add: generateWithRetry_def retry_loop.simps recorded_def flaky_pipeline_def Let_def)

theorem retry_temperature_schedule_witness:
  "generateWithRetry (recorded flaky_pipeline) rnd0 [] ''hello'' 3 ([], 0)
     = (getFallbackQuestion rnd0 ''hello'',
        ([\<lparr> call_prompt = buildContextualPrompt [] ''hello'',
            call_options = gen_options_for double_0_8,
            call_outcome = Inl (Error ''network'') \<rparr>,
          \<lparr> call_prompt = buildContextualPrompt [] ''hello'',
            call_options = gen_options_for double_0_8,
            call_outcome = Inr ''Tell me more'' \<rparr>,
          \<lparr> call_prompt = buildContextualPrompt [] ''hello'',
            call_options = gen_options_for (double_add double_0_8 double_0_15),
            call_outcome = Inr ''Tell me more'' \<rparr>],
         3))
 \<and> (\<exists>calls.
       [\<lparr> call_prompt = buildContextualPrompt [] ''hello'',
          call_options = gen_options_for double_0_8,
          call_outcome = Inl (Error ''network'') \<rparr>,
        \<lparr> call_prompt = buildContextualPrompt [] ''hello'',
          call_options = gen_options_for double_0_8,
          call_outcome = Inr ''Tell me more'' \<rparr>,
        \<lparr> call_prompt = buildContextualPrompt [] ''hello'',
          call_options = gen_options_for (double_add double_0_8 double_0_15),
          call_outcome = Inr ''Tell me more'' \<rparr>]
         = [] @ calls
       \<and> length calls \<le> 3
       \<and> (\<forall>k < length calls.
             temperature (call_options (calls ! k))
               = raised (length (filter returned (take k calls))))
       \<and> (list_all returned calls \<longrightarrow>
            (\<forall>k < length calls. temperature (call_options (calls ! k)) = raised k)))
 \<and> double_value (raised 0) = 28823037615171176 / 2 ^ 55
 \<and> double_value (raised 1) = 34227357168015772 / 2 ^ 55
 \<and> double_value (raised 2) = 39631676720860368 / 2 ^ 55"
  using retry_temperature_schedule [OF flaky_run] flaky_run by blast

text \<open>
  Claim C6 as stated fails when an attempt throws: the capability below throws on the
  first call and returns a text without a question mark afterwards. The second attempt
  (number 1) is made at the double \<open>0.8\<close> again: that is not the number \<open>0.8 + 0.15\<close>,
  and not the double that \<open>0.8 + 0.15\<close> gives either.
\<close>

theorem throw_keeps_temperature_counterexample:
  "length (fst (snd (generateWithRetry (recorded flaky_pipeline) rnd0 [] ''hello'' 3 ([], 0)))) = 3
 \<and> call_outcome
       (fst (snd (generateWithRetry (recorded flaky_pipeline) rnd0 [] ''hello'' 3 ([], 0))) ! 0)
     = Inl (Error ''network'')
 \<and> temperature (call_options
       (fst (snd (generateWithRetry (recorded flaky_pipeline) rnd0 [] ''hello'' 3 ([], 0))) ! 1))
     = double_0_8
 \<and> double_value (temperature (call_options
       (fst (snd (generateWithRetry (recorded flaky_pipeline) rnd0 [] ''hello'' 3 ([], 0))) ! 1)))
     \<noteq> 0.8 + 0.15 * 1
 \<and> temperature (call_options
       (fst (snd (generateWithRetry (recorded flaky_pipeline) rnd0 [] ''hello'' 3 ([], 0))) ! 1))
     \<noteq> double_add double_0_8 double_0_15"
proof -
  have "double_0_8 \<noteq> double_add double_0_8 double_0_15"
    unfolding double_add_0_8_0_15 by (simp add: double_0_8_def)
  moreover have "double_value double_0_8 \<noteq> 0.8 + 0.15 * 1"
    by (simp add: double_value_def double_0_8_def)
  ultimately show ?thesis by (simp add: flaky_run gen_options_for_def)
qed

subsection \<open>When every attempt is rejected\<close>

lemma retry_loop_all_rejected:
  assumes "\<forall>p prompt opts. \<exists>generated p'.
             run p prompt opts = (Inr generated, p') \<and> \<not> str_includes generated ''?''"
  shows "fst (retry_loop run history userMessage maxRetries attempt t p) = None"
proof (induction "maxRetries - attempt" arbitrary: attempt t p)
  case 0
  then have "\<not> attempt < maxRetries" by simp
  then show ?case by (subst retry_loop.simps) simp
next
  case (Suc d)
  then have lt: "attempt < maxRetries" and d: "d = maxRetries - Suc attempt" by simp_all
  obtain generated p1 where
    run: "run p (buildContextualPrompt history userMessage) (gen_options_for t) = (Inr generated, p1)"
    and noq: "\<not> str_includes generated ''?''"
    using assms by blast
  have "retry_loop run history userMessage maxRetries attempt t p
      = retry_loop run history userMessage maxRetries (Suc attempt) (double_add t double_0_15) p1"
    using lt run no_question_rejected [OF noq, of userMessage]
    by (subst retry_loop.simps) (simp add: Let_def)
  then show ?case using Suc.hyps(1) [OF d] by simp
qed

lemma recorded_no_question:
  assumes "\<forall>p prompt opts. \<exists>generated p'.
             run p prompt opts = (Inr generated, p') \<and> \<not> str_includes generated ''?''"
  shows "\<forall>q prompt opts. \<exists>generated q'.
             recorded run q prompt opts = (Inr generated, q') \<and> \<not> str_includes generated ''?''"
proof (intro allI)
  fix q :: "call list \<times> 'a" and prompt opts
  obtain seen p where q: "q = (seen, p)" by (cases q)
  obtain generated p' where run: "run p prompt opts = (Inr generated, p')"
    and noq: "\<not> str_includes generated ''?''"
    using assms by blast
  from run have "recorded run (seen, p) prompt opts
      = (Inr generated, (seen @ [\<lparr> call_prompt = prompt, call_options = opts,
                                    call_outcome = Inr generated \<rparr>], p'))"
    by (rule recorded_apply)
  then show "\<exists>generated q'. recorded run q prompt opts = (Inr generated, q')
      \<and> \<not> str_includes generated ''?''"
    using noq q by blast
qed

lemma draw_index: "nat \<lfloor>draw_value rnd * real (length genericQuestions)\<rfloor> < length genericQuestions"
proof -
  have r: "0 \<le> draw_value rnd" "draw_value rnd < 1"
    using draw_value [of rnd] by simp_all
  have len: "length genericQuestions = 5" by (simp add: genericQuestions_def)
  have "draw_value rnd * 5 < 5" using r by simp
  then have "\<lfloor>draw_value rnd * 5\<rfloor> < 5" by (simp add: floor_less_iff)
  then have "nat \<lfloor>draw_value rnd * 5\<rfloor> < 5" by arith
  then show ?thesis by (simp add: len)
qed

lemma fallback_in_pool: "getFallbackQuestion rnd userMessage \<in> set fallbackPool"
proof -
  have "genericQuestions ! nat \<lfloor>draw_value rnd * real (length genericQuestions)\<rfloor>
      \<in> set genericQuestions"
    using draw_index [of rnd] by (rule nth_mem)
  then show ?thesis
    by (auto simp: getFallbackQuestion_def Let_def fallbackPool_def keywordQuestions_def)
qed

lemma fallbackPool_questions: "list_all (\<lambda>q. q \<noteq> [] \<and> last q = CHR ''?'') fallbackPool"
  by code_simp

lemma generateWithRetry_all_rejected:
  assumes "\<forall>p prompt opts. \<exists>generated p'.
             run p prompt opts = (Inr generated, p') \<and> \<not> str_includes generated ''?''"
  shows "\<exists>calls p'. generateWithRetry (recorded run) rnd history userMessage maxRetries (seen, p)
            = (getFallbackQuestion rnd userMessage, (seen @ calls, p'))
          \<and> length calls = maxRetries"
proof -
  obtain res seen' p' where
    loop: "retry_loop (recorded run) history userMessage maxRetries 0 double_0_8 (seen, p)
             = (res, (seen', p'))"
    by (metis prod.exhaust)
  have "fst (retry_loop (recorded run) history userMessage maxRetries 0 double_0_8 (seen, p)) = None"
    using recorded_no_question [OF assms] by (rule retry_loop_all_rejected)
  then have none: "res = None" using loop by simp
  from retry_loop_recorded [OF loop] none obtain calls where
    "seen' = seen @ calls" "length calls = maxRetries"
    by auto
  then show ?thesis using loop none by (simp add: generateWithRetry_def)
qed

text \<open>
  Claim C5. Let the capability return, on every call, a text without a question mark.
  Then \<open>generateWithRetry\<close> calls it exactly \<open>maxRetries\<close> times and returns the
  fallback question; \<open>generateResponse\<close> on a loaded model calls it exactly 3 times
  and returns that question, not an error. The fallback question is one of the ten of
  the fallback pool, is not empty and ends with a question mark.
\<close>

theorem retry_exhaustion_fallback:
  assumes "\<forall>p prompt opts. \<exists>generated p'.
             run p prompt opts = (Inr generated, p') \<and> \<not> str_includes generated ''?''"
  shows "(\<exists>calls p'. generateWithRetry (recorded run) rnd history userMessage maxRetries (seen, p)
            = (getFallbackQuestion rnd userMessage, (seen @ calls, p'))
          \<and> length calls = maxRetries)
       \<and> (isModelLoaded s \<and> pipeline s = (seen, p) \<longrightarrow>
            (\<exists>s' calls p'. generateResponse (recorded run) rnd s userMessage
                 = (Inr (getFallbackQuestion rnd userMessage), s')
               \<and> pipeline s' = (seen @ calls, p') \<and> length calls = 3))
       \<and> getFallbackQuestion rnd userMessage \<in> set fallbackPool
       \<and> getFallbackQuestion rnd userMessage \<noteq> []
       \<and> last (getFallbackQuestion rnd userMessage) = CHR ''?''"
proof (intro conjI impI)
  show "\<exists>calls p'. generateWithRetry (recorded run) rnd history userMessage maxRetries (seen, p)
            = (getFallbackQuestion rnd userMessage, (seen @ calls, p'))
          \<and> length calls = maxRetries"
    using assms by (rule generateWithRetry_all_rejected)
next
  assume s: "isModelLoaded s \<and> pipeline s = (seen, p)"
  let ?h = "conversationHistory s @ [\<lparr> role = User, content = userMessage \<rparr>]"
  obtain calls p' where
    g: "generateWithRetry (recorded run) rnd ?h userMessage 3 (seen, p)
          = (getFallbackQuestion rnd userMessage, (seen @ calls, p'))"
    and n: "length calls = 3"
    using generateWithRetry_all_rejected [OF assms, of rnd ?h userMessage 3 seen p] by blast
  have "generateResponse (recorded run) rnd s userMessage
      = (Inr (getFallbackQuestion rnd userMessage),
         s\<lparr> conversationHistory :=
                ?h @ [\<lparr> role = Assistant, content = getFallbackQuestion rnd userMessage \<rparr>],
            pipeline := (seen @ calls, p') \<rparr>)"
    using s g by (simp add: generateResponse_def Let_def)
  then show "\<exists>s' calls p'. generateResponse (recorded run) rnd s userMessage
                 = (Inr (getFallbackQuestion rnd userMessage), s')
               \<and> pipeline s' = (seen @ calls, p') \<and> length calls = 3"
    using n by simp
next
  show in_pool: "getFallbackQuestion rnd userMessage \<in> set fallbackPool"
    by (rule fallback_in_pool)
  then show "getFallbackQuestion rnd userMessage \<noteq> []"
    using fallbackPool_questions by (auto simp: list_all_iff)
  from in_pool show "last (getFallbackQuestion rnd userMessage) = CHR ''?''"
    using fallbackPool_questions by (auto simp: list_all_iff)
qed

lemma built_fallback:
  "getFallbackQuestion rnd0 ''I built a compiler''
     = ''What technologies did you use and why did you choose them?''"
  by code_simp

theorem retry_exhaustion_fallback_witness:
  "(\<exists>calls p'. generateWithRetry (recorded (stub_pipeline ''Tell me more'')) rnd0 []
         ''I built a compiler'' 5 ([], ())
       = (''What technologies did you use and why did you choose them?'', ([] @ calls, p'))
     \<and> length calls = 5)
 \<and> (\<exists>s' calls p'. generateResponse (recorded (stub_pipeline ''Tell me more'')) rnd0
         \<lparr> conversationHistory = [], systemPrompt = ''You are a professional job interviewer.'',
           pipeline = ([], ()), isModelLoaded = True \<rparr> ''I built a compiler''
       = (Inr ''What technologies did you use and why did you choose them?'', s')
     \<and> pipeline s' = ([] @ calls, p') \<and> length calls = 3)
 \<and> ''What technologies did you use and why did you choose them?'' \<in> set fallbackPool
 \<and> ''What technologies did you use and why did you choose them?'' \<noteq> []
 \<and> last ''What technologies did you use and why did you choose them?'' = CHR ''?''"
proof -
  let ?s = "\<lparr> conversationHistory = [], systemPrompt = ''You are a professional job interviewer.'',
             pipeline = ([] :: call list, ()), isModelLoaded = True \<rparr>"
  have stub: "\<forall>p prompt opts. \<exists>generated p'.
      stub_pipeline ''Tell me more'' p prompt opts = (Inr generated, p')
      \<and> \<not> str_includes generated ''?''"
    using tell_me_more_no_question by (simp add: stub_pipeline_def)
  have s: "isModelLoaded ?s \<and> pipeline ?s = ([], ())" by simp
  show ?thesis
    using retry_exhaustion_fallback
      [OF stub, of rnd0 "[]" "''I built a compiler''" 5 "[]" "()" ?s] s
    unfolding built_fallback by blast
qed

end
